theory Spec2Isabelle
  imports Main "HOL-Library.Sublist"
begin

section \<open>Data model\<close>

text \<open>
  The scraper works on parsed documents: nested Python values built from
  \<open>None\<close>, booleans, integers, strings, lists and dictionaries with string keys.
  A dictionary keeps its insertion order, so it is an association list; the
  repository only builds dictionaries with distinct keys, and a lookup takes
  the entry of a key.
\<close>

datatype pyval =
    PNone
  | PBool bool
  | PInt int
  | PStr string
  | PList "pyval list"
  | PDict "(string \<times> pyval) list"

text \<open>A path segment or subscript: a string key or an integer index.\<close>

datatype pkey = KStr string | KInt int

text \<open>The exceptions the modelled code can raise.\<close>

datatype error =
    KeyError
  | IndexError
  | TypeError
  | AttributeError
  | Exception string

type_synonym 'a result = "error + 'a"

definition ebind :: "'a result \<Rightarrow> ('a \<Rightarrow> 'b result) \<Rightarrow> 'b result" where
  "ebind m f = (case m of Inl e \<Rightarrow> Inl e | Inr v \<Rightarrow> f v)"

text \<open>
  Subscripting a list or a string by an integer: positions \<open>0 .. len - 1\<close> from
  the front and \<open>-1 .. -len\<close> from the back; everything else is an IndexError.
\<close>

definition seq_index :: "'a list \<Rightarrow> int \<Rightarrow> 'a result" where
  "seq_index xs i =
     (if 0 \<le> i \<and> i < int (length xs) then Inr (xs ! nat i)
      else if i < 0 \<and> - i \<le> int (length xs) then Inr (xs ! nat (int (length xs) + i))
      else Inl IndexError)"

text \<open>\<open>d[key]\<close> on a dynamically typed value.\<close>

fun py_getitem :: "pyval \<Rightarrow> pkey \<Rightarrow> pyval result" where
  "py_getitem (PDict kvs) (KStr s) =
     (case map_of kvs s of None \<Rightarrow> Inl KeyError | Some v \<Rightarrow> Inr v)"
| "py_getitem (PDict kvs) (KInt i) = Inl KeyError"
| "py_getitem (PList xs) (KInt i) = seq_index xs i"
| "py_getitem (PList xs) (KStr s) = Inl TypeError"
| "py_getitem (PStr cs) (KInt i) =
     (case seq_index cs i of Inl e \<Rightarrow> Inl e | Inr c \<Rightarrow> Inr (PStr [c]))"
| "py_getitem (PStr cs) (KStr s) = Inl TypeError"
| "py_getitem _ _ = Inl TypeError"

text \<open>Substring test on strings, as Python's \<open>needle in haystack\<close>.\<close>

fun contains_str :: "string \<Rightarrow> string \<Rightarrow> bool" where
  "contains_str p [] = (p = [])"
| "contains_str p (c # cs) = (prefix p (c # cs) \<or> contains_str p cs)"

text \<open>\<open>s in x\<close> for a string \<open>s\<close>.\<close>

fun py_in :: "string \<Rightarrow> pyval \<Rightarrow> bool result" where
  "py_in s (PDict kvs) = Inr (s \<in> set (map fst kvs))"
| "py_in s (PList xs) = Inr (PStr s \<in> set xs)"
| "py_in s (PStr t) = Inr (contains_str s t)"
| "py_in s _ = Inl TypeError"

text \<open>\<open>len(x)\<close>.\<close>

fun py_len :: "pyval \<Rightarrow> nat result" where
  "py_len (PDict kvs) = Inr (length kvs)"
| "py_len (PList xs) = Inr (length xs)"
| "py_len (PStr s) = Inr (length s)"
| "py_len _ = Inl TypeError"

text \<open>Truth value of an object in a condition.\<close>

fun truthy :: "pyval \<Rightarrow> bool" where
  "truthy PNone = False"
| "truthy (PBool b) = b"
| "truthy (PInt i) = (i \<noteq> 0)"
| "truthy (PStr s) = (s \<noteq> [])"
| "truthy (PList xs) = (xs \<noteq> [])"
| "truthy (PDict kvs) = (kvs \<noteq> [])"

text \<open>\<open>x[0] if isinstance(x, list) else x\<close>.\<close>

fun first_if_list :: "pyval \<Rightarrow> pyval result" where
  "first_if_list (PList xs) = seq_index xs 0"
| "first_if_list v = Inr v"

text \<open>
  \<open>d[key] = value\<close> on a dictionary: an existing key keeps its position, a new
  key is appended.
\<close>

primrec setitem :: "string \<Rightarrow> pyval \<Rightarrow> (string \<times> pyval) list \<Rightarrow> (string \<times> pyval) list" where
  "setitem k v [] = [(k, v)]"
| "setitem k v (p # ps) = (if fst p = k then (k, v) # ps else p # setitem k v ps)"

section \<open>Nested-value extraction (app/utils/data\_utils.py)\<close>

subsection \<open>safe\_get\<close>

text \<open>
  \<^verbatim>\<open>for key in keys:
      if isinstance(d, dict) and key in d: d = d[key]
      else: return None
  return d\<close>
  An integer is never a key of a string-keyed dictionary.
\<close>

fun safe_get :: "pyval \<Rightarrow> pkey list \<Rightarrow> pyval" where
  "safe_get d [] = d"
| "safe_get (PDict kvs) (KStr s # ks) =
     (case map_of kvs s of None \<Rightarrow> PNone | Some v \<Rightarrow> safe_get v ks)"
| "safe_get _ (k # ks) = PNone"

text \<open>
  The descent the specification describes: a keyed step into a mapping and an
  index step into a sequence; \<open>None\<close> is "absent".
\<close>

fun spec_step :: "pyval \<Rightarrow> pkey \<Rightarrow> pyval option" where
  "spec_step (PDict kvs) (KStr s) = map_of kvs s"
| "spec_step (PList xs) (KInt i) = (if 0 \<le> i \<and> nat i < length xs then Some (xs ! nat i) else None)"
| "spec_step _ _ = None"

fun spec_descend :: "pyval \<Rightarrow> pkey list \<Rightarrow> pyval option" where
  "spec_descend t [] = Some t"
| "spec_descend t (k # ks) =
     (case spec_step t k of None \<Rightarrow> None | Some v \<Rightarrow> spec_descend v ks)"

text \<open>The descent through mappings only.\<close>

fun mapping_step :: "pyval \<Rightarrow> pkey \<Rightarrow> pyval option" where
  "mapping_step (PDict kvs) (KStr s) = map_of kvs s"
| "mapping_step _ _ = None"

fun mapping_descend :: "pyval \<Rightarrow> pkey list \<Rightarrow> pyval option" where
  "mapping_descend t [] = Some t"
| "mapping_descend t (k # ks) =
     (case mapping_step t k of None \<Rightarrow> None | Some v \<Rightarrow> mapping_descend v ks)"

subsection \<open>search\_for\_key\<close>

text \<open>
  The recursive search of a key. In a dictionary the entries are visited in
  order: an entry with the target key ends the search of this dictionary with
  its value; otherwise the value is searched, and a result other than \<open>None\<close>
  is returned. A list is searched element by element. \<open>None\<close> stands both
  for "not found" and for a stored \<open>None\<close>. The interpreter's recursion limit
  is outside the model.
\<close>

fun search_for_key :: "pyval \<Rightarrow> string \<Rightarrow> pyval"
and search_items :: "(string \<times> pyval) list \<Rightarrow> string \<Rightarrow> pyval"
and search_elems :: "pyval list \<Rightarrow> string \<Rightarrow> pyval" where
  "search_for_key (PDict kvs) target_key = search_items kvs target_key"
| "search_for_key (PList xs) target_key = search_elems xs target_key"
| "search_for_key _ target_key = PNone"
| "search_items [] target_key = PNone"
| "search_items ((key, value) # kvs) target_key =
     (if key = target_key then value
      else (let result = search_for_key value target_key
            in if result \<noteq> PNone then result else search_items kvs target_key))"
| "search_elems [] target_key = PNone"
| "search_elems (item # xs) target_key =
     (let result = search_for_key item target_key
      in if result \<noteq> PNone then result else search_elems xs target_key)"

text \<open>
  The specification's view of a tree: all mapping entries in depth-first
  pre-order, an entry before the entries inside its value, mapping entries in
  their order and sequence elements by index.
\<close>

fun entries :: "pyval \<Rightarrow> (string \<times> pyval) list"
and entries_items :: "(string \<times> pyval) list \<Rightarrow> (string \<times> pyval) list"
and entries_elems :: "pyval list \<Rightarrow> (string \<times> pyval) list" where
  "entries (PDict kvs) = entries_items kvs"
| "entries (PList xs) = entries_elems xs"
| "entries _ = []"
| "entries_items [] = []"
| "entries_items ((k, v) # kvs) = (k, v) # entries v @ entries_items kvs"
| "entries_elems [] = []"
| "entries_elems (x # xs) = entries x @ entries_elems xs"

definition first_value :: "(string \<times> pyval) list \<Rightarrow> pyval" where
  "first_value es = (case es of [] \<Rightarrow> PNone | (k, v) # _ \<Rightarrow> v)"

text \<open>findFirst as specified: the value of the first entry with exactly that key.\<close>

definition spec_find_first :: "pyval \<Rightarrow> string \<Rightarrow> pyval" where
  "spec_find_first t k = first_value (filter (\<lambda>e. fst e = k) (entries t))"

text \<open>
  The entries that the search can reach: as \<open>entries\<close>, but an entry with the
  target key ends the listing of its mapping, and its value is not entered.
\<close>

fun visited :: "pyval \<Rightarrow> string \<Rightarrow> (string \<times> pyval) list"
and visited_items :: "(string \<times> pyval) list \<Rightarrow> string \<Rightarrow> (string \<times> pyval) list"
and visited_elems :: "pyval list \<Rightarrow> string \<Rightarrow> (string \<times> pyval) list" where
  "visited (PDict kvs) k = visited_items kvs k"
| "visited (PList xs) k = visited_elems xs k"
| "visited _ k = []"
| "visited_items [] k = []"
| "visited_items ((key, v) # kvs) k =
     (if key = k then [(key, v)] else (key, v) # visited v k @ visited_items kvs k)"
| "visited_elems [] k = []"
| "visited_elems (x # xs) k = visited x k @ visited_elems xs k"

subsection \<open>collect\_keys\_with\_keyword\<close>

text \<open>
  \<open>re.search("Phase", key, re.IGNORECASE)\<close>, the only search the repository
  makes. The pattern has no metacharacter, so a match is found exactly when
  the key contains the letters of \<open>Phase\<close> in either case (below U+0100 no
  other character is matched by one of these letters).
\<close>

definition ascii_lower :: "char \<Rightarrow> char" where
  "ascii_lower c =
     (case map_of (zip ''ABCDEFGHIJKLMNOPQRSTUVWXYZ'' ''abcdefghijklmnopqrstuvwxyz'') c of
        None \<Rightarrow> c
      | Some l \<Rightarrow> l)"

definition phase_key :: "string \<Rightarrow> bool" where
  "phase_key key = contains_str (map ascii_lower ''Phase'') (map ascii_lower key)"

definition search_Phase :: "string \<Rightarrow> bool result" where
  "search_Phase key = Inr (phase_key key)"

text \<open>
  \<open>collect_keys_with_keyword(json_data, keyword)\<close>. The library call
  \<open>re.search(keyword, key, re.IGNORECASE)\<close> is a parameter, \<open>re_search\<close>: for
  the given keyword, whether a key has a match, or the exception that a
  keyword which is not a valid pattern raises. The inner function
  \<open>search_keys\<close> appends to the enclosing list \<open>keys_with_keyword\<close>; the list
  is threaded through the traversal. Its second parameter \<open>parent_key\<close> is
  never read and is left out.
\<close>

fun search_keys :: "(string \<Rightarrow> bool result) \<Rightarrow> pyval \<Rightarrow> pyval list \<Rightarrow> pyval list result"
and search_keys_items ::
  "(string \<Rightarrow> bool result) \<Rightarrow> (string \<times> pyval) list \<Rightarrow> pyval list \<Rightarrow> pyval list result"
and search_keys_elems ::
  "(string \<Rightarrow> bool result) \<Rightarrow> pyval list \<Rightarrow> pyval list \<Rightarrow> pyval list result" where
  "search_keys re_search (PDict kvs) acc = search_keys_items re_search kvs acc"
| "search_keys re_search (PList xs) acc = search_keys_elems re_search xs acc"
| "search_keys re_search _ acc = Inr acc"
| "search_keys_items re_search [] acc = Inr acc"
| "search_keys_items re_search ((key, value) # kvs) acc =
     ebind (re_search key) (\<lambda>found.
     ebind (search_keys re_search value (if found then acc @ [PDict [(key, value)]] else acc))
       (search_keys_items re_search kvs))"
| "search_keys_elems re_search [] acc = Inr acc"
| "search_keys_elems re_search (item # xs) acc =
     ebind (search_keys re_search item acc) (search_keys_elems re_search xs)"

definition collect_keys_with_keyword :: "(string \<Rightarrow> bool result) \<Rightarrow> pyval \<Rightarrow> pyval result" where
  "collect_keys_with_keyword re_search json_data =
     ebind (search_keys re_search json_data [])
       (\<lambda>keys_with_keyword.
          Inr (if keys_with_keyword \<noteq> [] then PList keys_with_keyword else PNone))"

text \<open>The entries whose key matches, in pre-order, and their one-entry dictionaries.\<close>

definition matching :: "(string \<Rightarrow> bool) \<Rightarrow> pyval \<Rightarrow> (string \<times> pyval) list" where
  "matching found t = filter (\<lambda>e. found (fst e)) (entries t)"

definition singletons :: "(string \<times> pyval) list \<Rightarrow> pyval list" where
  "singletons kvs = map (\<lambda>e. PDict [(fst e, snd e)]) kvs"

subsection \<open>extract\_phase\_data\<close>

type_synonym row = "(string \<times> pyval) list"

text \<open>
  \<^verbatim>\<open>for item in phases:
      for key, value in item.items():
          if key not in unique_dict:
              unique_dict[key] = value[0]\<close>
\<close>

fun unique_items :: "(string \<times> pyval) list \<Rightarrow> row \<Rightarrow> row result" where
  "unique_items [] unique_dict = Inr unique_dict"
| "unique_items ((key, value) # rest) unique_dict =
     (if key \<notin> set (map fst unique_dict)
      then ebind (py_getitem value (KInt 0))
             (\<lambda>x. unique_items rest (setitem key x unique_dict))
      else unique_items rest unique_dict)"

fun unique_phases :: "pyval list \<Rightarrow> row \<Rightarrow> row result" where
  "unique_phases [] unique_dict = Inr unique_dict"
| "unique_phases (PDict kvs # items) unique_dict =
     ebind (unique_items kvs unique_dict) (unique_phases items)"
| "unique_phases (_ # items) unique_dict = Inl AttributeError"

definition extract_phase_data :: "pyval \<Rightarrow> row \<Rightarrow> row result" where
  "extract_phase_data trial_data row_data =
     ebind (collect_keys_with_keyword search_Phase trial_data) (\<lambda>phases.
       if truthy phases
       then (case phases of
               PList items \<Rightarrow>
                 ebind (unique_phases items [])
                   (\<lambda>unique_dict. Inr (setitem ''phases'' (PList (singletons unique_dict)) row_data))
             | _ \<Rightarrow> Inl TypeError)
       else Inr row_data)"

text \<open>
  De-duplication by key as specified: the first entry of every distinct key,
  in the order of the first occurrences.
\<close>

fun first_occurrences :: "(string \<times> pyval) list \<Rightarrow> (string \<times> pyval) list" where
  "first_occurrences [] = []"
| "first_occurrences (e # es) = e # first_occurrences (filter (\<lambda>e'. fst e' \<noteq> fst e) es)"

definition first_element :: "pyval \<Rightarrow> pyval" where
  "first_element v = (case v of PList (x # _) \<Rightarrow> x | _ \<Rightarrow> PNone)"

section \<open>Field mapping and merge (app/utils/data\_utils.py, app/constants.py)\<close>

text \<open>The declared columns of the flat row (\<open>COLUMNS\<close> of app/constants.py).\<close>

definition COLUMNS :: "string list" where
  "COLUMNS = [''trial_id'', ''title'', ''url'', ''acronym'', ''status'', ''summary'', ''results'',
     ''conditions'', ''interventions'', ''primary_outcome'', ''secondary_outcome'',
     ''other_outcome'', ''sponsor'', ''collaborators'', ''sex'', ''age'', ''phases'',
     ''enrollment'', ''funder_type'', ''study_type'', ''study_design'', ''other_ids'',
     ''start_date'', ''primary_completion_date'', ''completion_date'', ''first_posted'',
     ''results_first_posted'', ''last_update_posted'', ''locations'', ''study_documents'',
     ''protocols'']"

text \<open>\<open>row_data = {column: None for column in COLUMNS}\<close>\<close>

definition empty_row :: row where
  "empty_row = map (\<lambda>column. (column, PNone)) COLUMNS"

text \<open>
  \<open>row_data[column] = d[key]\<close>: a missing key raises, and the row is then lost
  with the exception.
\<close>

definition copy_field :: "pyval \<Rightarrow> string \<Rightarrow> string \<Rightarrow> row \<Rightarrow> row result" where
  "copy_field d key column row_data =
     ebind (py_getitem d (KStr key)) (\<lambda>v. Inr (setitem column v row_data))"

text \<open>
  The ten assignments from the card that \<open>get_trial_data_from_card\<close> and
  \<open>extract_card_data\<close> have in common, in the order of the source.
\<close>

definition card_fields :: "pyval \<Rightarrow> row \<Rightarrow> row result" where
  "card_fields card_data row_data =
     ebind (copy_field card_data ''trial_id'' ''trial_id'' row_data) (\<lambda>r.
     ebind (copy_field card_data ''full_title'' ''title'' r) (\<lambda>r.
     ebind (copy_field card_data ''trial_results_link'' ''url'' r) (\<lambda>r.
     ebind (copy_field card_data ''population_age'' ''age'' r) (\<lambda>r.
     ebind (copy_field card_data ''gender'' ''sex'' r) (\<lambda>r.
     ebind (copy_field card_data ''start_date'' ''start_date'' r) (\<lambda>r.
     ebind (copy_field card_data ''sponsor_name'' ''sponsor'' r) (\<lambda>r.
     ebind (copy_field card_data ''medical_condition'' ''conditions'' r) (\<lambda>r.
     ebind (copy_field card_data ''disease'' ''disease'' r) (\<lambda>r.
     copy_field card_data ''trial_protocols'' ''protocols'' r)))))))))"

definition get_trial_data_from_card :: "pyval \<Rightarrow> row result" where
  "get_trial_data_from_card card_data = card_fields card_data empty_row"

text \<open>
  \<open>extract_card_data\<close> ends with
  \<open>row_data["status"] = card_data["trial_protocols"][0]["protocol_status"]\<close>.
\<close>

definition extract_card_data :: "pyval \<Rightarrow> row \<Rightarrow> row result" where
  "extract_card_data trial_data row_data =
     ebind (py_getitem trial_data (KStr ''card'')) (\<lambda>card_data.
     ebind (card_fields card_data row_data) (\<lambda>r.
     ebind (py_getitem card_data (KStr ''trial_protocols'')) (\<lambda>protocols.
     ebind (py_getitem protocols (KInt 0)) (\<lambda>protocol.
     ebind (py_getitem protocol (KStr ''protocol_status'')) (\<lambda>status.
     Inr (setitem ''status'' status r))))))"

text \<open>\<open>d.get(key)\<close>: only a dictionary has the method.\<close>

fun py_get :: "pyval \<Rightarrow> string \<Rightarrow> pyval result" where
  "py_get (PDict kvs) key = Inr (case map_of kvs key of None \<Rightarrow> PNone | Some v \<Rightarrow> v)"
| "py_get _ key = Inl AttributeError"

text \<open>
  \<^verbatim>\<open>if key in d:
      x = d[key]
      row_data[column] = x[0] if isinstance(x, list) else x\<close>
\<close>

definition copy_if_present :: "pyval \<Rightarrow> string \<Rightarrow> string \<Rightarrow> row \<Rightarrow> row result" where
  "copy_if_present d key column row_data =
     ebind (py_in key d) (\<lambda>present.
       if present
       then ebind (py_getitem d (KStr key)) (\<lambda>x.
            ebind (first_if_list x) (\<lambda>v. Inr (setitem column v row_data)))
       else Inr row_data)"

text \<open>
  \<open>extract_protocol_data\<close> reads three sections of the first protocol document
  through \<open>safe_get(trial_data, ["protocols", 0, section])\<close>.
\<close>

definition extract_protocol_data :: "pyval \<Rightarrow> row \<Rightarrow> row result" where
  "extract_protocol_data trial_data row_data =
     (let protocol_info = safe_get trial_data [KStr ''protocols'', KInt 0, KStr ''A. Protocol Information''] in
      ebind (if truthy protocol_info
             then ebind (py_get protocol_info ''Full title of the trial'') (\<lambda>title.
                  ebind (first_if_list title) (\<lambda>v. Inr (setitem ''title'' v row_data)))
             else Inr row_data) (\<lambda>r.
      let summary = safe_get trial_data [KStr ''protocols'', KInt 0, KStr ''summary''] in
      ebind (if truthy summary
             then ebind (copy_if_present summary ''Trial Status'' ''status'' r) (\<lambda>r.
                  ebind (copy_if_present summary ''Clinical Trial Type'' ''study_type'' r) (\<lambda>r.
                  copy_if_present summary
                    ''Date on which this record was first entered in the EudraCT database''
                    ''first_posted'' r))
             else Inr r) (\<lambda>r.
      let sponsor_info = safe_get trial_data [KStr ''protocols'', KInt 0, KStr ''B. Sponsor Information''] in
      if truthy sponsor_info
      then ebind (copy_if_present sponsor_info ''Country'' ''locations'' r) (\<lambda>r.
           copy_if_present sponsor_info ''Status of the sponsor'' ''funder_type'' r)
      else Inr r)))"

text \<open>
  \<^verbatim>\<open>current = [x for x in trial_data["results"] if "current" in x][0]
  current = trial_data["results"][current]\<close>
  Iterating a dictionary yields its keys, a list its elements, a string its
  characters. A list or a string never gets past the two lines: a list cannot
  be subscripted by the element found, and no single character contains
  \<open>current\<close>.
\<close>

fun contains_flags :: "string \<Rightarrow> pyval list \<Rightarrow> bool list result" where
  "contains_flags s [] = Inr []"
| "contains_flags s (x # xs) =
     ebind (py_in s x) (\<lambda>b. ebind (contains_flags s xs) (\<lambda>bs. Inr (b # bs)))"

fun select_current :: "pyval \<Rightarrow> pyval result" where
  "select_current (PDict kvs) =
     (case filter (contains_str ''current'') (map fst kvs) of
        [] \<Rightarrow> Inl IndexError
      | current # _ \<Rightarrow> py_getitem (PDict kvs) (KStr current))"
| "select_current (PList xs) =
     ebind (contains_flags ''current'' xs)
       (\<lambda>bs. if True \<in> set bs then Inl TypeError else Inl IndexError)"
| "select_current (PStr s) = Inl IndexError"
| "select_current _ = Inl TypeError"

text \<open>
  \<^verbatim>\<open>if section in current and key in current[section]:
      x = current[section][key]
      row_data[column] = x[0] if isinstance(x, list) else x\<close>
\<close>

definition copy_from_section :: "pyval \<Rightarrow> string \<Rightarrow> string \<Rightarrow> string \<Rightarrow> row \<Rightarrow> row result" where
  "copy_from_section current section key column row_data =
     ebind (py_in section current) (\<lambda>present.
       if present
       then ebind (py_getitem current (KStr section)) (\<lambda>sec.
              copy_if_present sec key column row_data)
       else Inr row_data)"

text \<open>
  \<^verbatim>\<open>found = search_for_key(current, key)
  if found:
      row_data[column] = found[0] if isinstance(found, list) else found\<close>
\<close>

definition copy_found :: "pyval \<Rightarrow> string \<Rightarrow> string \<Rightarrow> row \<Rightarrow> row result" where
  "copy_found current key column row_data =
     (let found = search_for_key current key in
      if truthy found
      then ebind (first_if_list found) (\<lambda>v. Inr (setitem column v row_data))
      else Inr row_data)"

definition extract_results_data :: "pyval \<Rightarrow> row \<Rightarrow> row result" where
  "extract_results_data trial_data row_data =
     ebind (py_getitem trial_data (KStr ''results'')) (\<lambda>results.
     ebind (select_current results) (\<lambda>current.
     ebind (py_getitem current (KStr ''summary'')) (\<lambda>summary.
     ebind (copy_if_present summary ''global_end_date'' ''completion_date'' row_data) (\<lambda>r.
     ebind (copy_from_section current ''results_information''
              ''This version publication date'' ''last_update_posted'' r) (\<lambda>r.
     ebind (copy_from_section current ''results_information''
              ''First version publication date'' ''results_first_posted'' r) (\<lambda>r.
     ebind (copy_found current ''Primary completion date'' ''primary_completion_date'' r) (\<lambda>r.
     ebind (copy_found current ''Worldwide total number of subjects'' ''enrollment'' r) (\<lambda>r.
     extract_phase_data trial_data r))))))))"

text \<open>\<open>d.keys()\<close>\<close>

fun py_keys :: "pyval \<Rightarrow> string list result" where
  "py_keys (PDict kvs) = Inr (map fst kvs)"
| "py_keys _ = Inl AttributeError"

text \<open>
  \<^verbatim>\<open>row_data = {column: None for column in COLUMNS}
  extract_card_data(trial_data, row_data)
  if len(trial_data["protocols"]) == 0: return row_data
  extract_protocol_data(trial_data, row_data)
  if not "results" in trial_data.keys(): return row_data
  extract_results_data(trial_data, row_data)
  return row_data\<close>
\<close>

definition update_record :: "pyval \<Rightarrow> row result" where
  "update_record trial_data =
     ebind (extract_card_data trial_data empty_row) (\<lambda>row_data.
     ebind (py_getitem trial_data (KStr ''protocols'')) (\<lambda>protocols.
     ebind (py_len protocols) (\<lambda>n.
     if n = 0 then Inr row_data
     else ebind (extract_protocol_data trial_data row_data) (\<lambda>row_data.
          ebind (py_keys trial_data) (\<lambda>keys.
          if ''results'' \<notin> set keys then Inr row_data
          else extract_results_data trial_data row_data)))))"



subsection \<open>Example inputs\<close>

definition example_card_items :: "pyval list \<Rightarrow> (string \<times> pyval) list" where
  "example_card_items trial_protocols =
     [(''trial_id'', PStr ''T1''), (''full_title'', PStr ''Card title''),
      (''trial_results_link'', PNone), (''population_age'', PStr ''Adults''),
      (''gender'', PStr ''Female''), (''start_date'', PStr ''2020-01-01''),
      (''sponsor_name'', PStr ''S''), (''medical_condition'', PStr ''C''),
      (''disease'', PStr ''D''), (''trial_protocols'', PList trial_protocols)]"

definition example_card :: "pyval list \<Rightarrow> pyval" where
  "example_card trial_protocols = PDict (example_card_items trial_protocols)"

definition example_protocol_items :: "(string \<times> pyval) list" where
  "example_protocol_items = [(''protocol_url'', PStr ''u''), (''protocol_status'', PStr ''ongoing'')]"

definition example_protocol_entry :: pyval where
  "example_protocol_entry = PDict example_protocol_items"

definition example_row :: "pyval \<Rightarrow> pyval \<Rightarrow> pyval \<Rightarrow> row" where
  "example_row status completion_date trial_protocols =
     [(''trial_id'', PStr ''T1''), (''title'', PStr ''Card title''),
      (''url'', PNone), (''acronym'', PNone), (''status'', status), (''summary'', PNone),
      (''results'', PNone), (''conditions'', PStr ''C''),
      (''interventions'', PNone), (''primary_outcome'', PNone),
      (''secondary_outcome'', PNone), (''other_outcome'', PNone),
      (''sponsor'', PStr ''S''), (''collaborators'', PNone),
      (''sex'', PStr ''Female''), (''age'', PStr ''Adults''),
      (''phases'', PNone), (''enrollment'', PNone),
      (''funder_type'', PNone), (''study_type'', PNone),
      (''study_design'', PNone), (''other_ids'', PNone),
      (''start_date'', PStr ''2020-01-01''),
      (''primary_completion_date'', PNone), (''completion_date'', completion_date),
      (''first_posted'', PNone), (''results_first_posted'', PNone),
      (''last_update_posted'', PNone), (''locations'', PNone),
      (''study_documents'', PNone), (''protocols'', trial_protocols),
      (''disease'', PStr ''D'')]"

section \<open>Fetcher (app/utils/page\_fetcher.py)\<close>

text \<open>\<open>str(n)\<close> for a natural number, as the f-strings of the messages print it.\<close>

definition digit_char :: "nat \<Rightarrow> char" where
  "digit_char d = ''0123456789'' ! d"

fun str_nat :: "nat \<Rightarrow> string" where
  "str_nat n = (if n < 10 then [digit_char n] else str_nat (n div 10) @ [digit_char (n mod 10)])"

declare str_nat.simps [simp del]

text \<open>
  What one \<open>session.get(url)\<close> does: it yields a response with a status and a
  body, or raises with a message. The session is given by the outcome of every
  successive request; the state counts the requests issued and records the
  durations passed to \<open>asyncio.sleep\<close>, in order.
\<close>

datatype get_outcome = Got nat string | Failed string

record fetch_state =
  requests :: nat
  slept :: "nat list"

text \<open>
  The body of the \<open>try\<close>: a response with status 200 is returned, any other
  status raises \<open>Failed to fetch {url} with status code: {status}\<close>.
\<close>

definition attempt_once :: "string \<Rightarrow> get_outcome \<Rightarrow> string + (nat \<times> string)" where
  "attempt_once url outcome =
     (case outcome of
        Got status body \<Rightarrow>
          if status = 200 then Inr (status, body)
          else Inl (''Failed to fetch '' @ url @ '' with status code: '' @ str_nat status)
      | Failed e \<Rightarrow> Inl e)"

text \<open>
  \<^verbatim>\<open>except Exception as e:
      if attempt < max_attempts:
          await asyncio.sleep(2 ** attempt)
          return await _make_request(session, url, attempt + 1, max_attempts)
      else:
          raise Exception(f"Failed to fetch {url} after {max_attempts} attempts. Last error: {e}")\<close>
  \<open>attempt\<close> and \<open>max_attempts\<close> are counters: every caller leaves them at
  their defaults 1 and 7.
\<close>

function make_request ::
  "(nat \<Rightarrow> get_outcome) \<Rightarrow> string \<Rightarrow> nat \<Rightarrow> nat \<Rightarrow> fetch_state
     \<Rightarrow> (nat \<times> string) result \<times> fetch_state" where
  "make_request session url attempt max_attempts st =
     (case attempt_once url (session (requests st)) of
        Inr response \<Rightarrow> (Inr response, st\<lparr>requests := requests st + 1\<rparr>)
      | Inl e \<Rightarrow>
          if attempt < max_attempts
          then make_request session url (attempt + 1) max_attempts
                 (st\<lparr>requests := requests st + 1, slept := slept st @ [2 ^ attempt]\<rparr>)
          else (Inl (Exception (''Failed to fetch '' @ url @ '' after '' @ str_nat max_attempts
                       @ '' attempts. Last error: '' @ e)),
                st\<lparr>requests := requests st + 1\<rparr>))"
  by pat_completeness auto
termination
  by (relation "measure (\<lambda>(session, url, attempt, max_attempts, st). max_attempts - attempt)") auto

declare make_request.simps [simp del]

text \<open>\<open>fetch_page\<close> calls \<open>_make_request(session, url)\<close> with the default counters.\<close>

definition fetch_page :: "(nat \<Rightarrow> get_outcome) \<Rightarrow> string \<Rightarrow> (nat \<times> string) result \<times> fetch_state" where
  "fetch_page session url = make_request session url 1 7 \<lparr>requests = 0, slept = []\<rparr>"

text \<open>An outcome that makes the attempt fail, and the message of its exception.\<close>

definition failed :: "string \<Rightarrow> get_outcome \<Rightarrow> bool" where
  "failed url outcome = (case attempt_once url outcome of Inl e \<Rightarrow> True | Inr r \<Rightarrow> False)"

definition error_text :: "string \<Rightarrow> get_outcome \<Rightarrow> string" where
  "error_text url outcome = (case attempt_once url outcome of Inl e \<Rightarrow> e | Inr r \<Rightarrow> [])"

section \<open>Orchestrator: the per-trial loop (app/eu\_scraper.py)\<close>

text \<open>
  The collaborators of the loop are outside the modelled code and are
  parameters: fetching and parsing one protocol page (the parser's dictionary,
  or the message of the exception raised), fetching and parsing the results
  page, and the two persistence calls.
\<close>

record collaborators =
  fetch_protocol :: "pyval \<Rightarrow> string + (string \<times> pyval) list"
  fetch_results :: "pyval \<Rightarrow> string + pyval"
  push_list_to_dynamodb :: "row list \<Rightarrow> string + unit"
  upload_jsons_to_s3 :: "pyval list \<Rightarrow> string \<Rightarrow> string + unit"

text \<open>A failing collaborator raises an exception with its message.\<close>

definition raising :: "string + 'a \<Rightarrow> 'a result" where
  "raising r = (case r of Inl msg \<Rightarrow> Inl (Exception msg) | Inr v \<Rightarrow> Inr v)"

text \<open>\<open>d.update(other)\<close>\<close>

definition dict_update :: "(string \<times> pyval) list \<Rightarrow> (string \<times> pyval) list \<Rightarrow> (string \<times> pyval) list" where
  "dict_update d other = fold (\<lambda>e. setitem (fst e) (snd e)) other d"

text \<open>
  \<open>get_protocols_data\<close>: every URL is fetched inside its own \<open>try\<close>; a failure
  is logged and the URL is left out.
\<close>

fun get_protocols_data :: "collaborators \<Rightarrow> pyval list \<Rightarrow> pyval list" where
  "get_protocols_data env [] = []"
| "get_protocols_data env (protocol_url # urls) =
     (case fetch_protocol env protocol_url of
        Inl msg \<Rightarrow> get_protocols_data env urls
      | Inr protocol_data_up \<Rightarrow>
          PDict (dict_update [(''url'', protocol_url)] protocol_data_up)
            # get_protocols_data env urls)"

text \<open>\<open>get_results\<close> re-raises any failure as \<open>Failed to retrieve results data: ...\<close>.\<close>

definition get_results :: "collaborators \<Rightarrow> pyval \<Rightarrow> pyval result" where
  "get_results env results_url =
     (case fetch_results env results_url of
        Inl msg \<Rightarrow> Inl (Exception (''Failed to retrieve results data: '' @ msg))
      | Inr results \<Rightarrow> Inr results)"

text \<open>Iterating a value in a \<open>for\<close> clause.\<close>

fun py_iter :: "pyval \<Rightarrow> pyval list result" where
  "py_iter (PList xs) = Inr xs"
| "py_iter (PDict kvs) = Inr (map (\<lambda>e. PStr (fst e)) kvs)"
| "py_iter (PStr s) = Inr (map (\<lambda>c. PStr [c]) s)"
| "py_iter _ = Inl TypeError"

text \<open>
  \<open>[protocol["protocol_url"] for protocol in ... if protocol["protocol_url"]]\<close>
\<close>

fun protocols_urls :: "pyval list \<Rightarrow> pyval list result" where
  "protocols_urls [] = Inr []"
| "protocols_urls (protocol # rest) =
     ebind (py_getitem protocol (KStr ''protocol_url'')) (\<lambda>url.
       if truthy url
       then ebind (protocols_urls rest) (\<lambda>urls. Inr (url # urls))
       else protocols_urls rest)"

text \<open>
  \<open>get_trial_data\<close>: the statements of the \<open>try\<close> after
  \<open>trial_data["trial_id"] = card_data["trial_id"]\<close>, and the whole function. Any
  exception in the \<open>try\<close> is caught and \<open>None\<close> is returned; but the handler
  formats \<open>trial_data['trial_id']\<close>, so when the trial id itself could not be
  read the handler raises KeyError.
\<close>

definition trial_data_body :: "collaborators \<Rightarrow> pyval \<Rightarrow> pyval \<Rightarrow> pyval result" where
  "trial_data_body env card_data trial_id =
     ebind (py_getitem card_data (KStr ''trial_protocols'')) (\<lambda>trial_protocols.
     ebind (py_iter trial_protocols) (\<lambda>entries.
     ebind (protocols_urls entries) (\<lambda>urls.
     let protocols = get_protocols_data env urls in
     ebind (py_getitem card_data (KStr ''trial_results_link'')) (\<lambda>results_url.
     if truthy results_url
     then ebind (get_results env results_url) (\<lambda>results.
            Inr (PDict [(''card'', card_data), (''trial_id'', trial_id),
                        (''protocols'', PList protocols), (''results'', results)]))
     else Inr (PDict [(''card'', card_data), (''trial_id'', trial_id),
                      (''protocols'', PList protocols)])))))"

definition get_trial_data :: "collaborators \<Rightarrow> pyval \<Rightarrow> pyval option result" where
  "get_trial_data env card_data =
     (case py_getitem card_data (KStr ''trial_id'') of
        Inl e \<Rightarrow> Inl KeyError
      | Inr trial_id \<Rightarrow>
          (case trial_data_body env card_data trial_id of
             Inl e \<Rightarrow> Inr None
           | Inr trial_data \<Rightarrow> Inr (Some trial_data)))"

text \<open>
  The loop of \<open>scrape_by_page\<close> and \<open>scrape_by_date\<close>:
  \<^verbatim>\<open>for i, card in enumerate(cards_data):
      trial_data = await self.get_trial_data(card)
      if not trial_data:
          logging.info(f"... {card['trial_id']}\tURL: {card['trial_results_link']}")
          continue
      new_record = update_record(trial_data)
      await push_list_to_dynamodb([new_record])
      await upload_jsons_to_s3([trial_data], "trial_data")
      successful_trials += 1\<close>
  The state records the counter, what was persisted and the cards skipped.
  The log line between the merge and the persistence reads
  \<open>new_record['trial_id']\<close>, a key that every row has.
\<close>

record loop_state =
  successful_trials :: nat
  pushed :: "row list"
  uploaded :: "pyval list"
  skipped :: "pyval list"

fun per_trial_loop :: "collaborators \<Rightarrow> pyval list \<Rightarrow> loop_state \<Rightarrow> loop_state result" where
  "per_trial_loop env [] st = Inr st"
| "per_trial_loop env (card_data # cards) st =
     ebind (get_trial_data env card_data) (\<lambda>trial_data.
       case trial_data of
         None \<Rightarrow>
           ebind (py_getitem card_data (KStr ''trial_id'')) (\<lambda>_.
           ebind (py_getitem card_data (KStr ''trial_results_link'')) (\<lambda>_.
           per_trial_loop env cards (st\<lparr>skipped := skipped st @ [card_data]\<rparr>)))
       | Some td \<Rightarrow>
           ebind (update_record td) (\<lambda>new_record.
           ebind (raising (push_list_to_dynamodb env [new_record])) (\<lambda>_.
           ebind (raising (upload_jsons_to_s3 env [td] ''trial_data'')) (\<lambda>_.
           per_trial_loop env cards
             (st\<lparr>successful_trials := successful_trials st + 1,
                 pushed := pushed st @ [new_record],
                 uploaded := uploaded st @ [td]\<rparr>)))))"

text \<open>The loop from its initial state, and the two numbers of the final report.\<close>

definition run_trials :: "collaborators \<Rightarrow> pyval list \<Rightarrow> (nat \<times> nat) result" where
  "run_trials env cards_data =
     ebind (per_trial_loop env cards_data
              \<lparr>successful_trials = 0, pushed = [], uploaded = [], skipped = []\<rparr>)
       (\<lambda>st. Inr (successful_trials st, length cards_data))"

text \<open>
  Example collaborators: every protocol page parses to an empty summary, the
  results page cannot be fetched, persistence succeeds.
\<close>

definition quiet :: collaborators where
  "quiet = \<lparr>fetch_protocol = (\<lambda>url. Inr [(''summary'', PDict [])]),
            fetch_results = (\<lambda>url. Inl ''timeout''),
            push_list_to_dynamodb = (\<lambda>items. Inr ()),
            upload_jsons_to_s3 = (\<lambda>data name_prefix. Inr ())\<rparr>"

definition example_card_with_results :: pyval where
  "example_card_with_results = PDict (setitem ''trial_results_link'' (PStr ''r'') (example_card_items [example_protocol_entry]))"


text \<open>
  A trial whose detail fetch returned an aggregate; and a trial that the loop
  gets past: its detail fetch fails and is caught, or its merge and its two
  persistence calls succeed.
\<close>

definition detail_fetched :: "collaborators \<Rightarrow> pyval \<Rightarrow> bool" where
  "detail_fetched env card_data =
     (case get_trial_data env card_data of Inr (Some td) \<Rightarrow> True | _ \<Rightarrow> False)"

definition trial_passes :: "collaborators \<Rightarrow> pyval \<Rightarrow> bool" where
  "trial_passes env card_data =
     (case get_trial_data env card_data of
        Inl e \<Rightarrow> False
      | Inr None \<Rightarrow>
          (case py_getitem card_data (KStr ''trial_results_link'') of
             Inl e \<Rightarrow> False | Inr v \<Rightarrow> True)
      | Inr (Some td) \<Rightarrow>
          (case update_record td of
             Inl e \<Rightarrow> False
           | Inr new_record \<Rightarrow>
               push_list_to_dynamodb env [new_record] = Inr ()
               \<and> upload_jsons_to_s3 env [td] ''trial_data'' = Inr ()))"

definition initial_state :: loop_state where
  "initial_state = \<lparr>successful_trials = 0, pushed = [], uploaded = [], skipped = []\<rparr>"

definition example_trial_data :: pyval where
  "example_trial_data =
     PDict [(''card'', example_card [example_protocol_entry]), (''trial_id'', PStr ''T1''),
            (''protocols'', PList [PDict [(''url'', PStr ''u''), (''summary'', PDict [])]])]"

definition example_empty_trial_data :: pyval where
  "example_empty_trial_data =
     PDict [(''card'', example_card []), (''trial_id'', PStr ''T1''), (''protocols'', PList [])]"

text \<open>
  What \<open>get_protocols_data\<close> keeps of one protocol URL: nothing when the
  retrieval fails, otherwise the parsed dictionary under its URL.
\<close>

definition protocol_document :: "collaborators \<Rightarrow> pyval \<Rightarrow> pyval option" where
  "protocol_document env protocol_url =
     (case fetch_protocol env protocol_url of
        Inl msg \<Rightarrow> None
      | Inr protocol_data_up \<Rightarrow> Some (PDict (dict_update [(''url'', protocol_url)] protocol_data_up)))"

definition failing_protocols :: collaborators where
  "failing_protocols = quiet\<lparr>fetch_protocol := (\<lambda>url. Inl ''timeout'')\<rparr>"

definition failing_store :: collaborators where
  "failing_store = quiet\<lparr>push_list_to_dynamodb := (\<lambda>items. Inl ''ddb'')\<rparr>"

section \<open>Pagination resolver (app/eu\_scraper.py)\<close>

text \<open>
  The characters that \<open>str.strip()\<close> and the class \<open>\s\<close> treat as white space,
  and the decimal digits of \<open>\d\<close>, among the characters below U+0100, which are
  the characters of a string here: the space, U+0009 to U+000D, U+001C to
  U+001F, the next-line control U+0085 and the no-break space U+00A0.
\<close>

definition is_space :: "char \<Rightarrow> bool" where
  "is_space c = (c \<in> set [CHR '' '', CHR 0x09, CHR 0x0A, CHR 0x0B, CHR 0x0C, CHR 0x0D,
                            CHR 0x1C, CHR 0x1D, CHR 0x1E, CHR 0x1F, CHR 0x85, CHR 0xA0])"

definition is_digit :: "char \<Rightarrow> bool" where
  "is_digit c = (c \<in> set ''0123456789'')"

text \<open>
  The text of the summary region is prepared by
  \<open>re.sub(r'\s+', ' ', text.strip().replace("  ", "").replace(",", "")).strip()\<close>:
  \<open>replace("  ", "")\<close> deletes the pairs of spaces it meets from the left, and
  \<open>re.sub\<close> puts one space for every maximal run of white space.
\<close>

definition strip :: "string \<Rightarrow> string" where
  "strip s = rev (dropWhile is_space (rev (dropWhile is_space s)))"

fun remove_double_spaces :: "string \<Rightarrow> string" where
  "remove_double_spaces (a # b # rest) =
     (if a = CHR '' '' \<and> b = CHR '' '' then remove_double_spaces rest
      else a # remove_double_spaces (b # rest))"
| "remove_double_spaces s = s"

definition remove_commas :: "string \<Rightarrow> string" where
  "remove_commas s = filter (\<lambda>c. c \<noteq> CHR '','') s"

function collapse_spaces :: "string \<Rightarrow> string" where
  "collapse_spaces [] = []"
| "collapse_spaces (c # cs) =
     (if is_space c then CHR '' '' # collapse_spaces (dropWhile is_space cs)
      else c # collapse_spaces cs)"
  by pat_completeness auto
termination
  by (relation "measure length") (auto simp: less_Suc_eq_le length_dropWhile_le)

definition normalise :: "string \<Rightarrow> string" where
  "normalise t = strip (collapse_spaces (remove_commas (remove_double_spaces (strip t))))"

text \<open>
  \<open>re.search\<close> of \<open>(\d+) result\(s\) found.*page \d+ of (\d+)\<close>, as the
  backtracking matcher runs it: the start positions from the left; at every
  greedy repetition the longest candidate first, then the shorter ones. The
  result is the pair of the two groups.
\<close>

primrec first_some :: "('a \<Rightarrow> 'b option) \<Rightarrow> 'a list \<Rightarrow> 'b option" where
  "first_some f [] = None"
| "first_some f (x # xs) = (case f x of None \<Rightarrow> first_some f xs | Some y \<Rightarrow> Some y)"

definition greedy :: "nat \<Rightarrow> nat \<Rightarrow> nat list" where
  "greedy lo hi = rev [lo..<Suc hi]"

definition digit_run :: "string \<Rightarrow> nat" where
  "digit_run s = length (takeWhile is_digit s)"

definition match_pages :: "string \<Rightarrow> string option" where
  "match_pages s =
     (if prefix ''page '' s
      then first_some
             (\<lambda>p. if prefix '' of '' (drop (5 + p) s)
                  then (if digit_run (drop (5 + p + 4) s) \<noteq> 0
                        then Some (takeWhile is_digit (drop (5 + p + 4) s)) else None)
                  else None)
             (greedy 1 (digit_run (drop 5 s)))
      else None)"

definition match_any :: "string \<Rightarrow> string option" where
  "match_any s =
     first_some (\<lambda>m. match_pages (drop m s))
       (greedy 0 (length (takeWhile (\<lambda>c. c \<noteq> CHR 0x0A) s)))"

definition match_here :: "string \<Rightarrow> (string \<times> string) option" where
  "match_here s =
     first_some
       (\<lambda>n. if prefix '' result(s) found'' (drop n s)
            then map_option (\<lambda>pages. (take n s, pages)) (match_any (drop (n + 16) s))
            else None)
       (greedy 1 (digit_run s))"

definition re_search_pattern :: "string \<Rightarrow> (string \<times> string) option" where
  "re_search_pattern text = first_some (\<lambda>i. match_here (drop i text)) [0..<Suc (length text)]"

text \<open>
  \<open>int(s)\<close> of a string of decimal digits (the interpreter's limit on the
  length of such a string is outside the model).
\<close>

definition digit_value :: "char \<Rightarrow> nat" where
  "digit_value c = length (takeWhile (\<lambda>d. d \<noteq> c) ''0123456789'')"

definition int_of_digits :: "string \<Rightarrow> nat" where
  "int_of_digits s = foldl (\<lambda>a c. 10 * a + digit_value c) 0 s"

text \<open>
  What the function reads of the parsed first page: there is no
  \<open>div id="tabs-1"\<close>; or it has no \<open>div class="outcome"\<close> inside; or the text of
  that region. In the first case \<open>.find\<close> is called on \<open>None\<close> and the
  AttributeError is re-raised by the \<open>except\<close> clause of the function.
\<close>

datatype search_page = NoTabs | NoOutcome | Outcome string

definition none_has_no_find :: string where
  "none_has_no_find = [CHR 0x27] @ ''NoneType'' @ [CHR 0x27] @ '' object has no attribute ''
                      @ [CHR 0x27] @ ''find'' @ [CHR 0x27]"

definition get_num_pages_and_results :: "search_page \<Rightarrow> (nat \<times> nat) option result" where
  "get_num_pages_and_results initial_search_page =
     (case initial_search_page of
        NoTabs \<Rightarrow>
          Inl (Exception (''Failed to determine number of pages and results: '' @ none_has_no_find))
      | NoOutcome \<Rightarrow> Inr None
      | Outcome data_section_text \<Rightarrow>
          (case re_search_pattern (normalise data_section_text) of
             None \<Rightarrow> Inr None
           | Some (results, pages) \<Rightarrow> Inr (Some (int_of_digits pages, int_of_digits results))))"


text \<open>A non-empty string of decimal digits.\<close>

definition digits :: "string \<Rightarrow> bool" where
  "digits s = (s \<noteq> [] \<and> list_all is_digit s)"

text \<open>
  The two parts of the pattern, read at the head of a text: a number that is
  directly followed by \<open> result(s) found\<close>, and \<open>page <digits> of <digits>\<close>.
\<close>

definition number_found :: "string \<Rightarrow> bool" where
  "number_found s =
     (digit_run s \<noteq> 0 \<and> prefix '' result(s) found'' (drop (digit_run s) s))"

definition page_part :: "string \<Rightarrow> bool" where
  "page_part s =
     (prefix ''page '' s \<and> digit_run (drop 5 s) \<noteq> 0
      \<and> prefix '' of '' (drop (5 + digit_run (drop 5 s)) s)
      \<and> digit_run (drop (9 + digit_run (drop 5 s)) s) \<noteq> 0)"

text \<open>
  The preparation in the words of the specification: the thousands separators
  are taken out and the white space inside the text is collapsed. Unlike
  \<open>normalise\<close> it has no step that deletes pairs of spaces.
\<close>

definition spec_prepare :: "string \<Rightarrow> string" where
  "spec_prepare t = strip (collapse_spaces (remove_commas t))"

section \<open>Properties\<close>

subsection \<open>Error monad\<close>

lemma ebind_Inr [simp]: "ebind (Inr v) f = f v"
  by (simp add: ebind_def)

lemma ebind_Inl [simp]: "ebind (Inl e) f = Inl e"
  by (simp add: ebind_def)

subsection \<open>safe\_get\<close>

lemma safe_get_index_absent:
  "(\<exists>i. KInt i \<in> set ks) \<Longrightarrow> safe_get d ks = PNone"
proof (induction d ks rule: safe_get.induct)
  case (1 d)
  then show ?case by simp
next
  case (2 kvs s ks)
  then show ?case by (cases "map_of kvs s") auto
qed simp_all

text \<open>
  C5 (as stated, refuted): an index step into a sequence resolves in the
  specified descent, but \<open>safe_get\<close> answers \<open>None\<close> there.
\<close>

theorem safe_get_index_step_counterexample:
  "spec_descend (PDict [(''protocols'', PList [PDict [(''summary'', PStr ''x'')]])])
       [KStr ''protocols'', KInt 0, KStr ''summary''] = Some (PStr ''x'')
   \<and> safe_get (PDict [(''protocols'', PList [PDict [(''summary'', PStr ''x'')]])])
       [KStr ''protocols'', KInt 0, KStr ''summary''] = PNone"
  by simp

text \<open>
  C5 (amended): \<open>safe_get\<close> is the sequential keyed descent through mappings
  only. It returns the value reached when every segment is a key of the
  mapping at that step, and \<open>None\<close> when a segment is missing or the current
  node is not a mapping (a scalar, \<open>None\<close> or a sequence); in particular a
  path with an index step always gives \<open>None\<close>. It is a total function: it
  does not raise.
\<close>

theorem safe_get_mapping_descend:
  "safe_get d ks = (case mapping_descend d ks of None \<Rightarrow> PNone | Some v \<Rightarrow> v)
   \<and> ((\<exists>i. KInt i \<in> set ks) \<longrightarrow> safe_get d ks = PNone)"
proof (intro conjI impI)
  show "safe_get d ks = (case mapping_descend d ks of None \<Rightarrow> PNone | Some v \<Rightarrow> v)"
  proof (induction d ks rule: safe_get.induct)
    case (2 kvs s ks)
    then show ?case by (cases "map_of kvs s") simp_all
  qed simp_all
next
  assume "\<exists>i. KInt i \<in> set ks"
  then show "safe_get d ks = PNone" by (rule safe_get_index_absent)
qed

text \<open>
  C5, witness: a path of keys that resolves, a path that meets a scalar, a
  missing key, and a path with an index step into a list.
\<close>

theorem safe_get_mapping_descend_witness:
  "safe_get (PDict [(''a'', PDict [(''b'', PStr ''x'')]), (''l'', PList [PStr ''y''])])
       [KStr ''a'', KStr ''b''] = PStr ''x''
   \<and> safe_get (PDict [(''a'', PDict [(''b'', PStr ''x'')]), (''l'', PList [PStr ''y''])])
       [KStr ''a'', KStr ''b'', KStr ''c''] = PNone
   \<and> safe_get (PDict [(''a'', PDict [(''b'', PStr ''x'')]), (''l'', PList [PStr ''y''])])
       [KStr ''z''] = PNone
   \<and> (\<exists>i. KInt i \<in> set [KStr ''l'', KInt 0])
   \<and> safe_get (PDict [(''a'', PDict [(''b'', PStr ''x'')]), (''l'', PList [PStr ''y''])])
       [KStr ''l'', KInt 0] = PNone"
proof -
  let ?t = "PDict [(''a'', PDict [(''b'', PStr ''x'')]), (''l'', PList [PStr ''y''])]"
  have h: "\<exists>i. KInt i \<in> set [KStr ''l'', KInt 0]" by simp
  from safe_get_mapping_descend[of ?t "[KStr ''a'', KStr ''b'']"]
    safe_get_mapping_descend[of ?t "[KStr ''a'', KStr ''b'', KStr ''c'']"]
    safe_get_mapping_descend[of ?t "[KStr ''z'']"]
    safe_get_mapping_descend[of ?t "[KStr ''l'', KInt 0]"] h
  show ?thesis by simp
qed

subsection \<open>search\_for\_key\<close>

lemma first_value_append:
  "first_value (xs @ ys) = (if xs = [] then first_value ys else first_value xs)"
  by (cases xs) (auto simp: first_value_def)

lemma first_value_nonnull:
  "PNone \<notin> snd ` set es \<Longrightarrow> es \<noteq> [] \<Longrightarrow> first_value es \<noteq> PNone"
  by (cases es) (auto simp: first_value_def)

lemma first_value_filter_nonnull:
  "first_value (filter (\<lambda>e. fst e = k \<and> snd e \<noteq> PNone) es) = PNone
     \<longleftrightarrow> filter (\<lambda>e. fst e = k \<and> snd e \<noteq> PNone) es = []"
proof
  assume a: "first_value (filter (\<lambda>e. fst e = k \<and> snd e \<noteq> PNone) es) = PNone"
  show "filter (\<lambda>e. fst e = k \<and> snd e \<noteq> PNone) es = []"
  proof (rule ccontr)
    assume "filter (\<lambda>e. fst e = k \<and> snd e \<noteq> PNone) es \<noteq> []"
    moreover have "PNone \<notin> snd ` set (filter (\<lambda>e. fst e = k \<and> snd e \<noteq> PNone) es)" by auto
    ultimately have "first_value (filter (\<lambda>e. fst e = k \<and> snd e \<noteq> PNone) es) \<noteq> PNone"
      using first_value_nonnull by blast
    with a show False by simp
  qed
next
  assume "filter (\<lambda>e. fst e = k \<and> snd e \<noteq> PNone) es = []"
  then show "first_value (filter (\<lambda>e. fst e = k \<and> snd e \<noteq> PNone) es) = PNone"
    by (simp add: first_value_def)
qed

lemma search_visited:
  "search_for_key t k = first_value (filter (\<lambda>e. fst e = k \<and> snd e \<noteq> PNone) (visited t k))"
  "search_items kvs k = first_value (filter (\<lambda>e. fst e = k \<and> snd e \<noteq> PNone) (visited_items kvs k))"
  "search_elems xs k = first_value (filter (\<lambda>e. fst e = k \<and> snd e \<noteq> PNone) (visited_elems xs k))"
proof (induction t k and kvs k and xs k rule: search_for_key_search_items_search_elems.induct)
  case (5 key v kvs t)
  show ?case
  proof (cases "key = t")
    case True
    then show ?thesis by (simp add: first_value_def)
  next
    case False
    let ?F = "filter (\<lambda>e. fst e = t \<and> snd e \<noteq> PNone)"
    have r: "search_for_key v t = first_value (?F (visited v t))" using 5(1)[OF False] .
    show ?thesis
    proof (cases "?F (visited v t) = []")
      case True
      with r have z: "search_for_key v t = PNone" by (simp add: first_value_def)
      with 5(2)[OF False refl] have "search_items kvs t = first_value (?F (visited_items kvs t))"
        by simp
      with z True False show ?thesis by (simp add: first_value_append)
    next
      case ne: False
      then have "first_value (?F (visited v t)) \<noteq> PNone"
        using first_value_filter_nonnull[of t "visited v t"] by simp
      with r ne False show ?thesis by (simp add: first_value_append Let_def)
    qed
  qed
next
  case (7 x xs t)
  let ?F = "filter (\<lambda>e. fst e = t \<and> snd e \<noteq> PNone)"
  have r: "search_for_key x t = first_value (?F (visited x t))" using 7(1) .
  show ?case
  proof (cases "?F (visited x t) = []")
    case True
    with r have z: "search_for_key x t = PNone" by (simp add: first_value_def)
    with 7(2)[OF refl] have "search_elems xs t = first_value (?F (visited_elems xs t))" by simp
    with z True show ?thesis by (simp add: first_value_append)
  next
    case ne: False
    then have "first_value (?F (visited x t)) \<noteq> PNone"
      using first_value_filter_nonnull[of t "visited x t"] by simp
    with r ne show ?thesis by (simp add: first_value_append Let_def)
  qed
qed (simp_all add: first_value_def)

lemma search_no_match:
  "filter (\<lambda>e. fst e = k) (entries t) = [] \<longrightarrow> search_for_key t k = PNone"
  "filter (\<lambda>e. fst e = k) (entries_items kvs) = [] \<longrightarrow> search_items kvs k = PNone"
  "filter (\<lambda>e. fst e = k) (entries_elems xs) = [] \<longrightarrow> search_elems xs k = PNone"
  by (induction t k and kvs k and xs k rule: search_for_key_search_items_search_elems.induct)
     (auto simp: Let_def)

lemma search_first:
  "first_value (filter (\<lambda>e. fst e = k) (entries t)) \<noteq> PNone \<longrightarrow>
      search_for_key t k = first_value (filter (\<lambda>e. fst e = k) (entries t))"
  "first_value (filter (\<lambda>e. fst e = k) (entries_items kvs)) \<noteq> PNone \<longrightarrow>
      search_items kvs k = first_value (filter (\<lambda>e. fst e = k) (entries_items kvs))"
  "first_value (filter (\<lambda>e. fst e = k) (entries_elems xs)) \<noteq> PNone \<longrightarrow>
      search_elems xs k = first_value (filter (\<lambda>e. fst e = k) (entries_elems xs))"
proof (induction t k and kvs k and xs k rule: search_for_key_search_items_search_elems.induct)
  case (5 key v kvs t)
  show ?case
  proof (cases "key = t")
    case True
    then show ?thesis by (simp add: first_value_def)
  next
    case False
    let ?M = "filter (\<lambda>e. fst e = t)"
    show ?thesis
    proof
      assume nn: "first_value (?M (entries_items ((key, v) # kvs))) \<noteq> PNone"
      show "search_items ((key, v) # kvs) t = first_value (?M (entries_items ((key, v) # kvs)))"
      proof (cases "?M (entries v) = []")
        case True
        then have z: "search_for_key v t = PNone" using search_no_match(1)[of t v] by simp
        from nn True False have "first_value (?M (entries_items kvs)) \<noteq> PNone"
          by (simp add: first_value_append)
        with 5(2)[OF False refl] z
        have "search_items kvs t = first_value (?M (entries_items kvs))" by simp
        with z True False show ?thesis by (simp add: first_value_append)
      next
        case ne: False
        with nn False have "first_value (?M (entries v)) \<noteq> PNone"
          by (simp add: first_value_append)
        with 5(1)[OF False] have "search_for_key v t = first_value (?M (entries v))"
          and "search_for_key v t \<noteq> PNone" by simp_all
        with ne False show ?thesis by (simp add: first_value_append Let_def)
      qed
    qed
  qed
next
  case (7 x xs t)
  let ?M = "filter (\<lambda>e. fst e = t)"
  show ?case
  proof
    assume nn: "first_value (?M (entries_elems (x # xs))) \<noteq> PNone"
    show "search_elems (x # xs) t = first_value (?M (entries_elems (x # xs)))"
    proof (cases "?M (entries x) = []")
      case True
      then have z: "search_for_key x t = PNone" using search_no_match(1)[of t x] by simp
      from nn True have "first_value (?M (entries_elems xs)) \<noteq> PNone"
        by (simp add: first_value_append)
      with 7(2)[OF refl] z
      have "search_elems xs t = first_value (?M (entries_elems xs))" by simp
      with z True show ?thesis by (simp add: first_value_append)
    next
      case ne: False
      with nn have "first_value (?M (entries x)) \<noteq> PNone"
        by (simp add: first_value_append)
      with 7(1) have "search_for_key x t = first_value (?M (entries x))"
        and "search_for_key x t \<noteq> PNone" by simp_all
      with ne show ?thesis by (simp add: first_value_append Let_def)
    qed
  qed
qed (simp_all add: first_value_def)

text \<open>
  C7 (as stated, refuted): the first entry with the target key in pre-order
  is \<open>a.k\<close>, holding \<open>None\<close>; the search does not stop there and returns the
  value of the later entry \<open>b.k\<close>.
\<close>

theorem search_for_key_null_match_counterexample:
  "search_for_key (PDict [(''a'', PDict [(''k'', PNone)]), (''b'', PDict [(''k'', PStr ''x'')])]) ''k''
     = PStr ''x''
   \<and> spec_find_first (PDict [(''a'', PDict [(''k'', PNone)]), (''b'', PDict [(''k'', PStr ''x'')])]) ''k''
     = PNone"
  by (simp add: spec_find_first_def first_value_def)

text \<open>
  C7 (amended): \<open>search_for_key\<close> traverses depth-first in pre-order (mapping
  entries in their order, sequence elements by index), whatever the types of
  the values it passes. It returns the value of the first entry whose key
  equals the target key exactly whenever that value is not \<open>None\<close>, and
  \<open>None\<close> for a tree with no such entry. An entry with the target key that
  holds \<open>None\<close> counts as not found: it ends the search of its own mapping and
  the traversal goes on after that mapping, so that in every case the result
  is the first value other than \<open>None\<close> under the target key among the
  entries still reached (\<open>None\<close> if there is none). The function is total: it
  does not raise.
\<close>

theorem search_for_key_first_match:
  "search_for_key t k
     = first_value (filter (\<lambda>e. fst e = k \<and> snd e \<noteq> PNone) (visited t k))
   \<and> (filter (\<lambda>e. fst e = k) (entries t) = [] \<or> spec_find_first t k \<noteq> PNone \<longrightarrow>
        search_for_key t k = spec_find_first t k)"
proof (intro conjI impI)
  show "search_for_key t k
     = first_value (filter (\<lambda>e. fst e = k \<and> snd e \<noteq> PNone) (visited t k))"
    by (rule search_visited(1))
next
  assume "filter (\<lambda>e. fst e = k) (entries t) = [] \<or> spec_find_first t k \<noteq> PNone"
  then show "search_for_key t k = spec_find_first t k"
  proof
    assume e: "filter (\<lambda>e. fst e = k) (entries t) = []"
    with search_no_match(1)[of k t] show ?thesis
      by (simp add: spec_find_first_def first_value_def)
  next
    assume "spec_find_first t k \<noteq> PNone"
    with search_first(1)[of k t] show ?thesis by (simp add: spec_find_first_def)
  qed
qed

text \<open>
  C7, witness: a match nested in a list before a later entry holding \<open>None\<close>;
  a tree without a match; and a first match holding \<open>None\<close>, after which the
  rest of its mapping is not searched.
\<close>

theorem search_for_key_first_match_witness:
  "search_for_key (PDict [(''a'', PList [PStr ''s'', PDict [(''k'', PStr ''x'')]]),
                          (''b'', PDict [(''k'', PNone)])]) ''k'' = PStr ''x''
   \<and> spec_find_first (PDict [(''a'', PList [PStr ''s'', PDict [(''k'', PStr ''x'')]]),
                          (''b'', PDict [(''k'', PNone)])]) ''k'' = PStr ''x''
   \<and> search_for_key (PDict [(''a'', PList [PStr ''s'']), (''b'', PInt 3)]) ''k'' = PNone
   \<and> search_for_key (PDict [(''a'', PDict [(''k'', PNone), (''z'', PDict [(''k'', PStr ''y'')])]),
                            (''b'', PDict [(''k'', PStr ''x'')])]) ''k'' = PStr ''x''"
proof -
  let ?t = "PDict [(''a'', PList [PStr ''s'', PDict [(''k'', PStr ''x'')]]),
                   (''b'', PDict [(''k'', PNone)])]"
  let ?u = "PDict [(''a'', PList [PStr ''s'']), (''b'', PInt 3)]"
  let ?w = "PDict [(''a'', PDict [(''k'', PNone), (''z'', PDict [(''k'', PStr ''y'')])]),
                   (''b'', PDict [(''k'', PStr ''x'')])]"
  have s: "spec_find_first ?t ''k'' = PStr ''x''"
    by (simp add: spec_find_first_def first_value_def)
  have h1: "filter (\<lambda>e. fst e = ''k'') (entries ?t) = [] \<or> spec_find_first ?t ''k'' \<noteq> PNone"
    by (simp add: s)
  have h2: "filter (\<lambda>e. fst e = ''k'') (entries ?u) = [] \<or> spec_find_first ?u ''k'' \<noteq> PNone"
    by simp
  from search_for_key_first_match[of ?t "''k''"] search_for_key_first_match[of ?u "''k''"]
    search_for_key_first_match[of ?w "''k''"] h1 h2 s
  show ?thesis by (simp add: spec_find_first_def first_value_def)
qed

subsection \<open>collect\_keys\_with\_keyword and the phase merge\<close>

lemma search_keys_all:
  "(\<forall>e \<in> set (entries t). re_search (fst e) = Inr (found (fst e))) \<longrightarrow>
     search_keys re_search t acc = Inr (acc @ singletons (filter (\<lambda>e. found (fst e)) (entries t)))"
  "(\<forall>e \<in> set (entries_items kvs). re_search (fst e) = Inr (found (fst e))) \<longrightarrow>
     search_keys_items re_search kvs acc
       = Inr (acc @ singletons (filter (\<lambda>e. found (fst e)) (entries_items kvs)))"
  "(\<forall>e \<in> set (entries_elems xs). re_search (fst e) = Inr (found (fst e))) \<longrightarrow>
     search_keys_elems re_search xs acc
       = Inr (acc @ singletons (filter (\<lambda>e. found (fst e)) (entries_elems xs)))"
  by (induction re_search t acc and re_search kvs acc and re_search xs acc
      rule: search_keys_search_keys_items_search_keys_elems.induct)
     (auto simp: singletons_def)

lemma collect_spec:
  assumes "\<forall>e \<in> set (entries t). re_search (fst e) = Inr (found (fst e))"
  shows "collect_keys_with_keyword re_search t =
     Inr (if matching found t = [] then PNone else PList (singletons (matching found t)))"
  using search_keys_all(1)[of t re_search found "[]"] assms
  by (simp add: collect_keys_with_keyword_def matching_def singletons_def)

lemma collect_Phase:
  "collect_keys_with_keyword search_Phase t =
     Inr (if matching phase_key t = [] then PNone else PList (singletons (matching phase_key t)))"
  by (rule collect_spec) (simp add: search_Phase_def)

lemma unique_phases_singletons:
  "unique_phases (singletons ms) u = unique_items ms u"
proof (induction ms arbitrary: u)
  case Nil
  then show ?case by (simp add: singletons_def)
next
  case (Cons e ms)
  obtain k v where e: "e = (k, v)" by (cases e)
  have step: "unique_phases (singletons ((k, v) # ms)) u
        = ebind (unique_items [(k, v)] u) (unique_phases (singletons ms))"
    by (simp add: singletons_def)
  show ?case
  proof (cases "k \<in> set (map fst u)")
    case True
    with step Cons.IH e show ?thesis by simp
  next
    case False
    show ?thesis
    proof (cases "py_getitem v (KInt 0)")
      case (Inl err)
      with step False e show ?thesis by simp
    next
      case (Inr x)
      with step False e Cons.IH show ?thesis by simp
    qed
  qed
qed

lemma setitem_fresh: "k \<notin> set (map fst u) \<Longrightarrow> setitem k x u = u @ [(k, x)]"
  by (induction u) auto

lemma first_occurrences_subset: "set (first_occurrences ms) \<subseteq> set ms"
proof (induction ms rule: first_occurrences.induct)
  case 1
  show ?case by simp
next
  case (2 e es)
  then show ?case by auto
qed

text \<open>
  Only the value of the first occurrence of a key is indexed: a later entry
  under a key already stored is skipped without being read.
\<close>

lemma unique_items_spec:
  "\<forall>e \<in> set (first_occurrences (filter (\<lambda>e. fst e \<notin> set (map fst u)) ms)).
      \<exists>x xs. snd e = PList (x # xs) \<Longrightarrow>
   unique_items ms u =
     Inr (u @ map (\<lambda>e. (fst e, first_element (snd e)))
                 (first_occurrences (filter (\<lambda>e. fst e \<notin> set (map fst u)) ms)))"
proof (induction ms arbitrary: u)
  case Nil
  then show ?case by simp
next
  case (Cons e ms)
  obtain k v where e: "e = (k, v)" by (cases e)
  show ?case
  proof (cases "k \<in> set (map fst u)")
    case True
    with Cons.prems e
    have rest: "\<forall>e \<in> set (first_occurrences (filter (\<lambda>e. fst e \<notin> set (map fst u)) ms)).
                  \<exists>x xs. snd e = PList (x # xs)"
      by simp
    from Cons.IH[OF rest] True e show ?thesis by simp
  next
    case False
    have f: "filter (\<lambda>e'. fst e' \<noteq> k) (filter (\<lambda>e. fst e \<notin> set (map fst u)) ms)
           = filter (\<lambda>e. fst e \<notin> set (map fst (u @ [(k, x)]))) ms" for x
      by (auto intro: filter_cong)
    from Cons.prems False e obtain x xs where v: "v = PList (x # xs)" by auto
    have g: "py_getitem v (KInt 0) = Inr x" by (simp add: v seq_index_def)
    from Cons.prems False e f[of x]
    have rest: "\<forall>e \<in> set (first_occurrences (filter (\<lambda>e. fst e \<notin> set (map fst (u @ [(k, x)]))) ms)).
                  \<exists>x xs. snd e = PList (x # xs)"
      by simp
    from False g e have "unique_items (e # ms) u = unique_items ms (u @ [(k, x)])"
      by (simp add: setitem_fresh)
    also have "\<dots> = Inr ((u @ [(k, x)]) @ map (\<lambda>e. (fst e, first_element (snd e)))
                 (first_occurrences (filter (\<lambda>e. fst e \<notin> set (map fst (u @ [(k, x)]))) ms)))"
      by (rule Cons.IH[OF rest])
    finally show ?thesis using False e f[of x] v by (simp add: first_element_def)
  qed
qed

text \<open>
  C8 (as stated, refuted): the phase merge does not keep the first
  occurrence's value; it stores \<open>value[0]\<close>: the first element of the list
  \<open>["II"]\<close> and the first character of the string \<open>"III"\<close>.
\<close>

theorem extract_phase_data_value_counterexample:
  "extract_phase_data (PDict [(''Phase'', PList [PStr ''II'']), (''phase_b'', PStr ''III'')]) []
     = Inr [(''phases'', PList [PDict [(''Phase'', PStr ''II'')], PDict [(''phase_b'', PStr ''I'')]])]
   \<and> first_occurrences (matching phase_key (PDict [(''Phase'', PList [PStr ''II'']), (''phase_b'', PStr ''III'')]))
     = [(''Phase'', PList [PStr ''II'']), (''phase_b'', PStr ''III'')]"
  by (simp add: extract_phase_data_def collect_keys_with_keyword_def matching_def
      search_Phase_def phase_key_def ascii_lower_def singletons_def seq_index_def)

text \<open>
  C8 (amended): whatever the search \<open>re.search(keyword, key, re.IGNORECASE)\<close>
  answers on the keys of the tree (\<open>found\<close>), as long as it answers,
  \<open>collect_keys_with_keyword\<close> returns one \<open>{key: value}\<close> entry per
  occurrence of a key with a match, in depth-first pre-order, nested and
  list-indexed occurrences included, and \<open>None\<close> when there is none. The phase
  merge searches for \<open>Phase\<close>; when the value of the first occurrence of every
  distinct matching key is a non-empty sequence, it keeps one entry per
  distinct key, in the order of the first occurrences, holding the first
  element of the first occurrence's value; the values of the later
  occurrences are not read.
\<close>

theorem collect_and_phase_merge:
  "((\<forall>e \<in> set (entries t). re_search (fst e) = Inr (found (fst e))) \<longrightarrow>
      collect_keys_with_keyword re_search t =
        Inr (if matching found t = [] then PNone else PList (singletons (matching found t))))
   \<and> ((\<forall>e \<in> set (first_occurrences (matching phase_key td)). \<exists>x xs. snd e = PList (x # xs)) \<longrightarrow>
        extract_phase_data td row_data =
          (if matching phase_key td = [] then Inr row_data
           else Inr (setitem ''phases''
                  (PList (singletons (map (\<lambda>e. (fst e, first_element (snd e)))
                                          (first_occurrences (matching phase_key td)))))
                  row_data)))"
proof (intro conjI impI)
  assume "\<forall>e \<in> set (entries t). re_search (fst e) = Inr (found (fst e))"
  then show "collect_keys_with_keyword re_search t =
        Inr (if matching found t = [] then PNone else PList (singletons (matching found t)))"
    by (rule collect_spec)
next
  assume h: "\<forall>e \<in> set (first_occurrences (matching phase_key td)). \<exists>x xs. snd e = PList (x # xs)"
  show "extract_phase_data td row_data =
          (if matching phase_key td = [] then Inr row_data
           else Inr (setitem ''phases''
                  (PList (singletons (map (\<lambda>e. (fst e, first_element (snd e)))
                                          (first_occurrences (matching phase_key td)))))
                  row_data))"
  proof (cases "matching phase_key td = []")
    case True
    then show ?thesis by (simp add: extract_phase_data_def collect_Phase)
  next
    case False
    then have ne: "singletons (matching phase_key td) \<noteq> []" by (simp add: singletons_def)
    from h have h': "\<forall>e \<in> set (first_occurrences
                        (filter (\<lambda>e. fst e \<notin> set (map fst ([] :: row))) (matching phase_key td))).
                      \<exists>x xs. snd e = PList (x # xs)"
      by simp
    have u: "unique_phases (singletons (matching phase_key td)) [] =
             Inr (map (\<lambda>e. (fst e, first_element (snd e)))
                      (first_occurrences (matching phase_key td)))"
      using unique_items_spec[OF h'] by (simp add: unique_phases_singletons)
    from False ne u show ?thesis by (simp add: extract_phase_data_def collect_Phase)
  qed
qed

text \<open>
  C8, witness: a nested, list-indexed occurrence, and a repeated key whose
  later occurrence holds a number, which \<open>value[0]\<close> could not index. The
  search of the first part finds a match in every key of three characters,
  as the pattern \<open>...\<close> does.
\<close>

theorem collect_and_phase_merge_witness:
  "collect_keys_with_keyword (\<lambda>key. Inr (length key = 3))
      (PDict [(''abc'', PInt 1), (''ab'', PList [PDict [(''xyz'', PNone)]])])
     = Inr (PList [PDict [(''abc'', PInt 1)], PDict [(''xyz'', PNone)]])
   \<and> collect_keys_with_keyword search_Phase
      (PDict [(''a'', PList [PDict [(''Trial phase'', PList [PStr ''II''])]]),
              (''PHASE'', PList [PStr ''x'']), (''Trial phase'', PInt 3)])
     = Inr (PList [PDict [(''Trial phase'', PList [PStr ''II''])], PDict [(''PHASE'', PList [PStr ''x''])],
              PDict [(''Trial phase'', PInt 3)]])
   \<and> first_occurrences (matching phase_key
           (PDict [(''a'', PList [PDict [(''Trial phase'', PList [PStr ''II''])]]),
              (''PHASE'', PList [PStr ''x'']), (''Trial phase'', PInt 3)]))
     = [(''Trial phase'', PList [PStr ''II'']), (''PHASE'', PList [PStr ''x''])]
   \<and> extract_phase_data
      (PDict [(''a'', PList [PDict [(''Trial phase'', PList [PStr ''II''])]]),
              (''PHASE'', PList [PStr ''x'']), (''Trial phase'', PInt 3)]) []
     = Inr [(''phases'', PList [PDict [(''Trial phase'', PStr ''II'')], PDict [(''PHASE'', PStr ''x'')]])]"
proof -
  let ?s = "PDict [(''abc'', PInt 1), (''ab'', PList [PDict [(''xyz'', PNone)]])]"
  let ?t = "PDict [(''a'', PList [PDict [(''Trial phase'', PList [PStr ''II''])]]),
              (''PHASE'', PList [PStr ''x'']), (''Trial phase'', PInt 3)]"
  have m: "matching phase_key ?t = [(''Trial phase'', PList [PStr ''II'']),
        (''PHASE'', PList [PStr ''x'']), (''Trial phase'', PInt 3)]"
    by (simp add: matching_def phase_key_def ascii_lower_def)
  have ms: "matching (\<lambda>key. length key = 3) ?s = [(''abc'', PInt 1), (''xyz'', PNone)]"
    by (simp add: matching_def)
  have f: "first_occurrences (matching phase_key ?t)
           = [(''Trial phase'', PList [PStr ''II'']), (''PHASE'', PList [PStr ''x''])]"
    by (simp add: m)
  have h: "\<forall>e \<in> set (first_occurrences (matching phase_key ?t)). \<exists>x xs. snd e = PList (x # xs)"
    by (simp add: f)
  have a: "collect_keys_with_keyword (\<lambda>key. Inr (length key = 3)) ?s
             = Inr (PList [PDict [(''abc'', PInt 1)], PDict [(''xyz'', PNone)]])"
    using collect_and_phase_merge[of ?s "\<lambda>key. Inr (length key = 3)" "\<lambda>key. length key = 3" ?t "[]"] ms
    by (simp add: singletons_def)
  have b: "collect_keys_with_keyword search_Phase ?t
     = Inr (PList [PDict [(''Trial phase'', PList [PStr ''II''])], PDict [(''PHASE'', PList [PStr ''x''])],
              PDict [(''Trial phase'', PInt 3)]])"
    using collect_and_phase_merge[of ?t search_Phase phase_key ?t "[]"] m
    by (simp add: singletons_def search_Phase_def)
  have c: "extract_phase_data ?t []
     = Inr [(''phases'', PList [PDict [(''Trial phase'', PStr ''II'')], PDict [(''PHASE'', PStr ''x'')]])]"
    using collect_and_phase_merge[of ?t search_Phase phase_key ?t "[]"] h m f
    by (simp add: singletons_def first_element_def)
  from a b c f show ?thesis by simp
qed

subsection \<open>Row building\<close>



lemma extract_protocol_data_noop: "extract_protocol_data trial_data row_data = Inr row_data"
proof -
  have "safe_get trial_data [KStr ''protocols'', KInt 0, KStr k] = PNone" for k
    by (rule safe_get_index_absent) auto
  then show ?thesis by (simp add: extract_protocol_data_def)
qed

text \<open>
  C1: the card gives the provisional status \<open>ongoing\<close>; the first protocol
  document has a full title and a summary with \<open>Trial Status = ["completed"]\<close>.
  The claim requires the merged row to hold \<open>completed\<close> and the protocol's
  title. \<open>update_record\<close> returns the card's status and title: the path
  \<open>["protocols", 0, section]\<close> indexes a list, where \<open>safe_get\<close> answers \<open>None\<close>,
  so \<open>extract_protocol_data\<close> never changes the row.
\<close>

theorem update_record_protocol_status_ignored:
  "update_record (PDict [(''card'', example_card [example_protocol_entry]),
      (''trial_id'', PStr ''T1''),
      (''protocols'', PList [PDict [(''url'', PStr ''u''),
          (''A. Protocol Information'', PDict [(''Full title of the trial'', PList [PStr ''Full title''])]),
          (''summary'', PDict [(''Trial Status'', PList [PStr ''completed''])])]])])
   = Inr (example_row (PStr ''ongoing'') PNone (PList [example_protocol_entry]))"
  by (simp add: update_record_def extract_card_data_def card_fields_def copy_field_def
      empty_row_def COLUMNS_def example_card_def example_card_items_def example_protocol_entry_def example_protocol_items_def example_row_def
      seq_index_def extract_protocol_data_noop)

text \<open>
  C4: for a card whose protocol list is empty, the claim requires the status
  to be absent and the operation not to fail. \<open>update_record\<close> raises IndexError
  (from \<open>card_data["trial_protocols"][0]\<close>), although the minimal card row of the
  same card is built.
\<close>

theorem update_record_empty_protocol_list:
  "update_record (PDict [(''card'', example_card []), (''trial_id'', PStr ''T1''),
      (''protocols'', PList [])]) = Inl IndexError
   \<and> get_trial_data_from_card (example_card []) = Inr (example_row PNone PNone (PList []))"
  by (simp add: update_record_def extract_card_data_def card_fields_def copy_field_def
      get_trial_data_from_card_def
      empty_row_def COLUMNS_def example_card_def example_card_items_def example_row_def seq_index_def)

text \<open>
  C3: for a results document with no key containing \<open>current\<close>, the claim
  requires the results step to be a silent no-op. \<open>update_record\<close> raises
  IndexError (from the \<open>[0]\<close> on the empty list of matching keys).
\<close>

theorem update_record_no_current_version:
  "update_record (PDict [(''card'', example_card [example_protocol_entry]),
      (''trial_id'', PStr ''T1''),
      (''protocols'', PList [PDict [(''url'', PStr ''u'')]]),
      (''results'', PDict [(''v2_archived'',
          PDict [(''summary'', PDict [(''global_end_date'', PList [PStr ''2021-03-01''])])])])])
   = Inl IndexError"
  by (simp add: update_record_def extract_card_data_def card_fields_def copy_field_def
      empty_row_def COLUMNS_def example_card_def example_card_items_def example_protocol_entry_def example_protocol_items_def
      seq_index_def extract_protocol_data_noop extract_results_data_def)

text \<open>With a current version, the data of the first key containing \<open>current\<close> is used.\<close>

lemma update_record_current_version_example:
  "update_record (PDict [(''card'', example_card [example_protocol_entry]),
      (''trial_id'', PStr ''T1''),
      (''protocols'', PList [PDict [(''url'', PStr ''u'')]]),
      (''results'', PDict [
         (''v1_current'', PDict [(''summary'', PDict [(''global_end_date'', PList [PStr ''2021-03-01''])])]),
         (''v2_archived'', PDict [(''summary'', PDict [(''global_end_date'', PList [PStr ''1999-01-01''])])])])])
   = Inr (example_row (PStr ''ongoing'') (PStr ''2021-03-01'') (PList [example_protocol_entry]))"
  by (simp add: update_record_def extract_card_data_def card_fields_def copy_field_def
      empty_row_def COLUMNS_def example_card_def example_card_items_def example_protocol_entry_def example_protocol_items_def example_row_def
      seq_index_def extract_protocol_data_noop extract_results_data_def
      copy_if_present_def copy_from_section_def copy_found_def extract_phase_data_def
      collect_keys_with_keyword_def search_Phase_def phase_key_def ascii_lower_def)



















lemma update_record_example:
  "update_record (PDict [(''card'', example_card [example_protocol_entry]),
      (''trial_id'', PStr ''T1''), (''protocols'', PList [])])
   = Inr (example_row (PStr ''ongoing'') PNone (PList [example_protocol_entry]))"
  by (simp add: update_record_def extract_card_data_def card_fields_def copy_field_def
      empty_row_def COLUMNS_def example_card_def example_card_items_def example_protocol_entry_def example_protocol_items_def example_row_def
      seq_index_def)



subsection \<open>Retry engine\<close>

lemma make_request_success:
  "a \<le> j \<Longrightarrow> j \<le> m \<or> j = a \<Longrightarrow>
   (\<forall>k. a \<le> k \<and> k < j \<longrightarrow> failed url (session (requests st + (k - a)))) \<Longrightarrow>
   attempt_once url (session (requests st + (j - a))) = Inr response \<Longrightarrow>
   make_request session url a m st =
     (Inr response, \<lparr>requests = requests st + (j - a) + 1,
                     slept = slept st @ map (\<lambda>k. 2 ^ k) [a..<j]\<rparr>)"
proof (induction "j - a" arbitrary: a st)
  case 0
  then have "j = a" by simp
  with 0 show ?case by (subst make_request.simps) simp
next
  case (Suc d)
  then have lt: "a < j" and jm: "j \<le> m" by auto
  from Suc.prems(3) lt have f: "failed url (session (requests st))"
    by (metis diff_self_eq_0 add_0_right le_refl)
  then obtain e where e: "attempt_once url (session (requests st)) = Inl e"
    by (auto simp: failed_def split: sum.splits)
  let ?st = "st\<lparr>requests := requests st + 1, slept := slept st @ [2 ^ a]\<rparr>"
  have d: "d = j - (a + 1)" using Suc.hyps(2) by simp
  have fs: "\<forall>k. a + 1 \<le> k \<and> k < j \<longrightarrow> failed url (session (requests ?st + (k - (a + 1))))"
  proof (intro allI impI)
    fix k assume k: "a + 1 \<le> k \<and> k < j"
    then have f: "failed url (session (requests st + (k - a)))" using Suc.prems(3) by simp
    have eq: "requests ?st + (k - (a + 1)) = requests st + (k - a)"
    proof -
      have "requests ?st = requests st + 1" by simp
      with k show ?thesis by arith
    qed
    show "failed url (session (requests ?st + (k - (a + 1))))"
      unfolding eq by (rule f)
  qed
  have su: "attempt_once url (session (requests ?st + (j - (a + 1)))) = Inr response"
  proof -
    have eq: "requests ?st + (j - (a + 1)) = requests st + (j - a)"
    proof -
      have "requests ?st = requests st + 1" by simp
      with lt show ?thesis by arith
    qed
    show ?thesis unfolding eq by (rule Suc.prems(4))
  qed
  have ih: "make_request session url (a + 1) m ?st =
     (Inr response, \<lparr>requests = requests ?st + (j - (a + 1)) + 1,
                     slept = slept ?st @ map (\<lambda>k. 2 ^ k) [a + 1..<j]\<rparr>)"
    using Suc.hyps(1)[OF d _ _ fs su] lt jm by simp
  have am: "a < m" using lt jm by simp
  have up: "[a..<j] = a # [a + 1..<j]" using lt by (simp add: upt_conv_Cons)
  show ?case
    by (subst make_request.simps) (use e am ih lt up in simp)
qed

lemma make_request_exhausted:
  "a \<le> m \<Longrightarrow>
   (\<forall>k. a \<le> k \<and> k \<le> m \<longrightarrow> failed url (session (requests st + (k - a)))) \<Longrightarrow>
   make_request session url a m st =
     (Inl (Exception (''Failed to fetch '' @ url @ '' after '' @ str_nat m
            @ '' attempts. Last error: '' @ error_text url (session (requests st + (m - a))))),
      \<lparr>requests = requests st + (m - a) + 1,
       slept = slept st @ map (\<lambda>k. 2 ^ k) [a..<m]\<rparr>)"
proof (induction "m - a" arbitrary: a st)
  case 0
  then have am: "a = m" by simp
  from 0 am have "failed url (session (requests st))"
    by (metis diff_self_eq_0 add_0_right le_refl)
  then obtain e where e: "attempt_once url (session (requests st)) = Inl e"
    by (auto simp: failed_def split: sum.splits)
  show ?case
    by (subst make_request.simps) (use e am in \<open>simp add: error_text_def\<close>)
next
  case (Suc d)
  then have lt: "a < m" by auto
  from Suc.prems(2) lt have "failed url (session (requests st))"
    by (metis diff_self_eq_0 add_0_right le_refl less_imp_le)
  then obtain e where e: "attempt_once url (session (requests st)) = Inl e"
    by (auto simp: failed_def split: sum.splits)
  let ?st = "st\<lparr>requests := requests st + 1, slept := slept st @ [2 ^ a]\<rparr>"
  have d: "d = m - (a + 1)" using Suc.hyps(2) by simp
  have fs: "\<forall>k. a + 1 \<le> k \<and> k \<le> m \<longrightarrow> failed url (session (requests ?st + (k - (a + 1))))"
  proof (intro allI impI)
    fix k assume k: "a + 1 \<le> k \<and> k \<le> m"
    then have f: "failed url (session (requests st + (k - a)))" using Suc.prems(2) by simp
    have eq: "requests ?st + (k - (a + 1)) = requests st + (k - a)"
    proof -
      have "requests ?st = requests st + 1" by simp
      with k show ?thesis by arith
    qed
    show "failed url (session (requests ?st + (k - (a + 1))))"
      unfolding eq by (rule f)
  qed
  have ih: "make_request session url (a + 1) m ?st =
     (Inl (Exception (''Failed to fetch '' @ url @ '' after '' @ str_nat m
            @ '' attempts. Last error: '' @ error_text url (session (requests ?st + (m - (a + 1)))))),
      \<lparr>requests = requests ?st + (m - (a + 1)) + 1,
       slept = slept ?st @ map (\<lambda>k. 2 ^ k) [a + 1..<m]\<rparr>)"
    using Suc.hyps(1)[OF d _ fs] lt by simp
  have r: "requests ?st + (m - (a + 1)) = requests st + (m - a)"
  proof -
    have "requests ?st = requests st + 1" by simp
    with lt show ?thesis by arith
  qed
  have up: "[a..<m] = a # [a + 1..<m]" using lt by (simp add: upt_conv_Cons)
  show ?case
    by (subst make_request.simps) (use e lt ih r up in simp)
qed

lemma make_request_bound:
  "requests (snd (make_request session url a m st)) \<le> requests st + max 1 (m - a + 1)"
proof (induction session url a m st rule: make_request.induct)
  case (1 session url attempt max_attempts st)
  show ?case
  proof (cases "attempt_once url (session (requests st))")
    case (Inr response)
    then show ?thesis by (subst make_request.simps) simp
  next
    case (Inl e)
    show ?thesis
    proof (cases "attempt < max_attempts")
      case True
      with 1[OF Inl True] Inl show ?thesis
        by (subst make_request.simps) simp
    next
      case False
      with Inl show ?thesis by (subst make_request.simps) simp
    qed
  qed
qed


text \<open>
  C6: started at attempt 1, when the attempts before attempt \<open>j \<le> max_attempts\<close>
  fail and attempt \<open>j\<close> succeeds, the successful response is returned after
  \<open>j\<close> requests, having slept \<open>2^k\<close> seconds after each failed attempt \<open>k\<close>;
  when all \<open>max_attempts\<close> attempts fail, the terminal error is raised, whose
  message names the URL and the attempt count, after \<open>max_attempts\<close> requests;
  from any attempt number the recursion ends after at most
  \<open>max_attempts - attempt + 1\<close> requests (one, if that is less); the default
  maximum is 7.
\<close>

theorem make_request_retry:
  "(1 \<le> j \<and> j \<le> m \<and> (\<forall>k. 1 \<le> k \<and> k < j \<longrightarrow> failed url (session (k - 1)))
      \<and> attempt_once url (session (j - 1)) = Inr response \<longrightarrow>
      make_request session url 1 m \<lparr>requests = 0, slept = []\<rparr>
        = (Inr response, \<lparr>requests = j, slept = map (\<lambda>k. 2 ^ k) [1..<j]\<rparr>))
   \<and> (1 \<le> m \<and> (\<forall>k. 1 \<le> k \<and> k \<le> m \<longrightarrow> failed url (session (k - 1))) \<longrightarrow>
      make_request session url 1 m \<lparr>requests = 0, slept = []\<rparr>
        = (Inl (Exception (''Failed to fetch '' @ url @ '' after '' @ str_nat m
                  @ '' attempts. Last error: '' @ error_text url (session (m - 1)))),
           \<lparr>requests = m, slept = map (\<lambda>k. 2 ^ k) [1..<m]\<rparr>))
   \<and> requests (snd (make_request session url a m st)) \<le> requests st + max 1 (m - a + 1)
   \<and> fetch_page session url = make_request session url 1 7 \<lparr>requests = 0, slept = []\<rparr>"
proof (intro conjI impI)
  assume h: "1 \<le> j \<and> j \<le> m \<and> (\<forall>k. 1 \<le> k \<and> k < j \<longrightarrow> failed url (session (k - 1)))
      \<and> attempt_once url (session (j - 1)) = Inr response"
  let ?s = "\<lparr>requests = 0, slept = []\<rparr>"
  have "make_request session url 1 m ?s =
     (Inr response, \<lparr>requests = requests ?s + (j - 1) + 1,
                     slept = slept ?s @ map (\<lambda>k. 2 ^ k) [1..<j]\<rparr>)"
    by (rule make_request_success) (use h in simp_all)
  with h show "make_request session url 1 m ?s
        = (Inr response, \<lparr>requests = j, slept = map (\<lambda>k. 2 ^ k) [1..<j]\<rparr>)"
    by simp
next
  assume h: "1 \<le> m \<and> (\<forall>k. 1 \<le> k \<and> k \<le> m \<longrightarrow> failed url (session (k - 1)))"
  let ?s = "\<lparr>requests = 0, slept = []\<rparr>"
  have "make_request session url 1 m ?s =
     (Inl (Exception (''Failed to fetch '' @ url @ '' after '' @ str_nat m
            @ '' attempts. Last error: '' @ error_text url (session (requests ?s + (m - 1))))),
      \<lparr>requests = requests ?s + (m - 1) + 1,
       slept = slept ?s @ map (\<lambda>k. 2 ^ k) [1..<m]\<rparr>)"
    by (rule make_request_exhausted) (use h in simp_all)
  with h show "make_request session url 1 m ?s
        = (Inl (Exception (''Failed to fetch '' @ url @ '' after '' @ str_nat m
                  @ '' attempts. Last error: '' @ error_text url (session (m - 1)))),
           \<lparr>requests = m, slept = map (\<lambda>k. 2 ^ k) [1..<m]\<rparr>)"
    by simp
next
  show "requests (snd (make_request session url a m st)) \<le> requests st + max 1 (m - a + 1)"
    by (rule make_request_bound)
next
  show "fetch_page session url = make_request session url 1 7 \<lparr>requests = 0, slept = []\<rparr>"
    by (simp add: fetch_page_def)
qed

text \<open>
  C6, witness: two failures and a success on the third attempt, with a total
  delay of \<open>2^1 + 2^2\<close> seconds; and seven failures.
\<close>

theorem make_request_retry_witness:
  "fetch_page (\<lambda>i. if i < 2 then Got 503 ''busy'' else Got 200 ''doc'') ''http://x''
     = (Inr (200, ''doc''), \<lparr>requests = 3, slept = [2, 4]\<rparr>)
   \<and> sum_list [2, 4 :: nat] = 2 ^ 1 + 2 ^ 2
   \<and> fetch_page (\<lambda>i. Failed ''timeout'') ''http://x''
     = (Inl (Exception ''Failed to fetch http://x after 7 attempts. Last error: timeout''),
        \<lparr>requests = 7, slept = [2, 4, 8, 16, 32, 64]\<rparr>)"
proof -
  let ?s1 = "\<lambda>i::nat. if i < 2 then Got 503 ''busy'' else Got 200 ''doc''"
  let ?s2 = "\<lambda>i::nat. Failed ''timeout''"
  have f1: "\<forall>k. 1 \<le> k \<and> k < 3 \<longrightarrow> failed ''http://x'' (?s1 (k - 1))"
    by (auto simp: failed_def attempt_once_def)
  have a1: "attempt_once ''http://x'' (?s1 (3 - 1)) = Inr (200, ''doc'')"
    by (simp add: attempt_once_def)
  have f2: "\<forall>k. 1 \<le> k \<and> k \<le> 7 \<longrightarrow> failed ''http://x'' (?s2 (k - 1))"
    by (simp add: failed_def attempt_once_def)
  have u3: "[Suc 0..<3] = [1, 2::nat]" by (simp add: upt_rec)
  have u7: "[Suc 0..<7] = [1, 2, 3, 4, 5, 6::nat]" by (simp add: upt_rec)
  have s7: "str_nat 7 = ''7''" by (simp add: str_nat.simps[of 7] digit_char_def)
  from make_request_retry[of 3 7 "''http://x''" ?s1 "(200, ''doc'')"] f1 a1
  have r1: "fetch_page ?s1 ''http://x'' = (Inr (200, ''doc''), \<lparr>requests = 3, slept = [2, 4]\<rparr>)"
    by (simp add: u3 fetch_page_def)
  from make_request_retry[of 0 7 "''http://x''" ?s2] f2
  have r2: "fetch_page ?s2 ''http://x''
     = (Inl (Exception ''Failed to fetch http://x after 7 attempts. Last error: timeout''),
        \<lparr>requests = 7, slept = [2, 4, 8, 16, 32, 64]\<rparr>)"
    by (simp add: u7 s7 error_text_def attempt_once_def fetch_page_def)
  from r1 r2 show ?thesis by simp
qed

subsection \<open>Per-trial loop\<close>

lemma get_trial_data_trial_id:
  "get_trial_data env c = Inr r \<Longrightarrow> \<exists>tid. py_getitem c (KStr ''trial_id'') = Inr tid"
  by (auto simp: get_trial_data_def split: sum.splits)

lemma get_trial_data_caught:
  "py_getitem c (KStr ''trial_id'') = Inr tid \<Longrightarrow> \<exists>r. get_trial_data env c = Inr r"
  by (auto simp: get_trial_data_def split: sum.splits)

lemma get_protocols_data_map_filter:
  "get_protocols_data env urls = List.map_filter (protocol_document env) urls"
  by (induction urls) (auto simp: protocol_document_def List.map_filter_simps split: sum.splits)

lemma get_results_fetch_protocol [simp]:
  "get_results (env\<lparr>fetch_protocol := f\<rparr>) url = get_results env url"
  by (simp add: get_results_def)

lemma trial_data_body_fetch_protocol:
  "isl (trial_data_body (env\<lparr>fetch_protocol := f\<rparr>) c tid) = isl (trial_data_body env c tid)"
  by (auto simp: trial_data_body_def Let_def ebind_def split: sum.splits)

lemma detail_fetched_fetch_protocol:
  "detail_fetched (env\<lparr>fetch_protocol := f\<rparr>) c = detail_fetched env c"
proof (cases "py_getitem c (KStr ''trial_id'')")
  case (Inl e)
  then show ?thesis by (simp add: detail_fetched_def get_trial_data_def)
next
  case (Inr tid)
  from trial_data_body_fetch_protocol[where env = env and f = f and c = c and tid = tid] Inr show ?thesis
    by (cases "trial_data_body env c tid"; cases "trial_data_body (env\<lparr>fetch_protocol := f\<rparr>) c tid")
       (simp_all add: detail_fetched_def get_trial_data_def)
qed

lemma get_trial_data_results_failure:
  assumes "py_getitem c (KStr ''trial_id'') = Inr tid"
    and "py_getitem c (KStr ''trial_results_link'') = Inr url"
    and "truthy url" and "fetch_results env url = Inl msg"
  shows "get_trial_data env c = Inr None"
proof -
  have "isl (trial_data_body env c tid)"
    using assms(2,3,4)
    by (auto simp: trial_data_body_def Let_def ebind_def get_results_def split: sum.splits)
  then show ?thesis using assms(1)
    by (cases "trial_data_body env c tid") (simp_all add: get_trial_data_def)
qed


lemma per_trial_loop_passes:
  "list_all (trial_passes env) cards \<Longrightarrow>
   \<exists>st'. per_trial_loop env cards st = Inr st'
     \<and> successful_trials st' = successful_trials st + length (filter (detail_fetched env) cards)
     \<and> skipped st' = skipped st @ filter (\<lambda>c. \<not> detail_fetched env c) cards
     \<and> length (pushed st') = length (pushed st) + length (filter (detail_fetched env) cards)"
proof (induction cards arbitrary: st)
  case Nil
  then show ?case by simp
next
  case (Cons c cards)
  then have p: "trial_passes env c" and rest: "list_all (trial_passes env) cards" by simp_all
  show ?case
  proof (cases "get_trial_data env c")
    case (Inl e)
    with p show ?thesis by (simp add: trial_passes_def)
  next
    case (Inr r)
    from get_trial_data_trial_id[OF Inr] obtain tid where
      tid: "py_getitem c (KStr ''trial_id'') = Inr tid" by blast
    show ?thesis
    proof (cases r)
      case None
      with p Inr obtain v where v: "py_getitem c (KStr ''trial_results_link'') = Inr v"
        by (auto simp: trial_passes_def split: sum.splits)
      have nf: "\<not> detail_fetched env c" using Inr None by (simp add: detail_fetched_def)
      from Cons.IH[OF rest, of "st\<lparr>skipped := skipped st @ [c]\<rparr>"] obtain st' where
        "per_trial_loop env cards (st\<lparr>skipped := skipped st @ [c]\<rparr>) = Inr st'"
        "successful_trials st' = successful_trials st + length (filter (detail_fetched env) cards)"
        "skipped st' = (skipped st @ [c]) @ filter (\<lambda>c. \<not> detail_fetched env c) cards"
        "length (pushed st') = length (pushed st) + length (filter (detail_fetched env) cards)"
        by auto
      with Inr None tid v nf show ?thesis by simp
    next
      case (Some td)
      with p Inr obtain new_record where
        u: "update_record td = Inr new_record" and
        pu: "push_list_to_dynamodb env [new_record] = Inr ()" and
        up: "upload_jsons_to_s3 env [td] ''trial_data'' = Inr ()"
        by (auto simp: trial_passes_def split: sum.splits)
      have f: "detail_fetched env c" using Inr Some by (simp add: detail_fetched_def)
      let ?st = "st\<lparr>successful_trials := successful_trials st + 1,
                 pushed := pushed st @ [new_record],
                 uploaded := uploaded st @ [td]\<rparr>"
      from Cons.IH[OF rest, of ?st] obtain st' where
        "per_trial_loop env cards ?st = Inr st'"
        "successful_trials st' = successful_trials ?st + length (filter (detail_fetched env) cards)"
        "skipped st' = skipped ?st @ filter (\<lambda>c. \<not> detail_fetched env c) cards"
        "length (pushed st') = length (pushed ?st) + length (filter (detail_fetched env) cards)"
        by blast
      with Inr Some u pu up f show ?thesis by (simp add: raising_def)
    qed
  qed
qed

lemma get_trial_data_example_failed:
  "get_trial_data quiet example_card_with_results = Inr None"
  by (simp add: get_trial_data_def trial_data_body_def quiet_def example_card_with_results_def
      example_card_items_def example_protocol_entry_def example_protocol_items_def
      get_results_def dict_update_def)

lemma get_trial_data_example:
  "get_trial_data quiet (example_card [example_protocol_entry]) = Inr (Some example_trial_data)"
  by (simp add: get_trial_data_def trial_data_body_def quiet_def example_card_def
      example_card_items_def example_protocol_entry_def example_protocol_items_def
      dict_update_def example_trial_data_def)

lemma get_trial_data_example_failing_store:
  "get_trial_data failing_store (example_card [example_protocol_entry])
     = Inr (Some example_trial_data)"
  by (simp add: get_trial_data_def trial_data_body_def quiet_def failing_store_def example_card_def
      example_card_items_def example_protocol_entry_def example_protocol_items_def
      dict_update_def example_trial_data_def)

lemma get_trial_data_example_empty:
  "get_trial_data quiet (example_card []) = Inr (Some example_empty_trial_data)"
  by (simp add: get_trial_data_def trial_data_body_def quiet_def example_card_def
      example_card_items_def example_empty_trial_data_def)

lemma update_record_example_trial_data:
  "update_record example_trial_data
     = Inr (example_row (PStr ''ongoing'') PNone (PList [example_protocol_entry]))"
  by (simp add: example_trial_data_def update_record_def extract_card_data_def card_fields_def
      copy_field_def empty_row_def COLUMNS_def example_card_def example_card_items_def
      example_protocol_entry_def example_protocol_items_def example_row_def
      seq_index_def extract_protocol_data_noop)

lemma update_record_example_empty:
  "update_record example_empty_trial_data = Inl IndexError"
  by (simp add: example_empty_trial_data_def update_record_def extract_card_data_def
      card_fields_def copy_field_def empty_row_def COLUMNS_def example_card_def
      example_card_items_def seq_index_def)

text \<open>
  C2 (as stated, refuted): an exception of the merge step for the first trial
  (its card has no protocol entry) ends the loop, and the second trial is not
  processed; so does a failure of the per-trial persistence.
\<close>

theorem per_trial_loop_abort_counterexample:
  "run_trials quiet [example_card [], example_card [example_protocol_entry]] = Inl IndexError
   \<and> run_trials failing_store
        [example_card [example_protocol_entry], example_card [example_protocol_entry]]
      = Inl (Exception ''ddb'')"
  by (simp add: run_trials_def get_trial_data_example_empty update_record_example_empty
      get_trial_data_example_failing_store update_record_example_trial_data raising_def)
     (simp add: failing_store_def)

text \<open>
  C2 (amended): a failure that \<open>get_trial_data\<close> catches, in particular a
  failing retrieval of the results page, makes it return \<open>None\<close> (for a card
  with a trial id it never raises): that trial is skipped and the loop goes
  on. A failing retrieval of a protocol page is caught for that URL inside
  \<open>get_protocols_data\<close>: the document is left out, and whether the trial is
  skipped does not depend on it. When every card is one the loop gets past
  (\<open>get_trial_data\<close> returns \<open>None\<close> and the card has the results link that
  the skip message prints, or the merge and both persistence calls succeed),
  the loop runs over all cards, skips exactly the trials for which
  \<open>get_trial_data\<close> returned \<open>None\<close>, and reports as successCount the number
  of the other trials, out of totalCards.
\<close>

theorem per_trial_loop_isolates_fetch_failures:
  "(list_all (trial_passes env) cards \<longrightarrow>
      (\<exists>st'. per_trial_loop env cards initial_state = Inr st'
         \<and> successful_trials st' = length (filter (detail_fetched env) cards)
         \<and> skipped st' = filter (\<lambda>c. \<not> detail_fetched env c) cards
         \<and> length (pushed st') = length (filter (detail_fetched env) cards))
      \<and> run_trials env cards = Inr (length (filter (detail_fetched env) cards), length cards))
   \<and> (py_getitem c (KStr ''trial_id'') = Inr tid \<longrightarrow> (\<exists>r. get_trial_data env c = Inr r))
   \<and> (py_getitem c (KStr ''trial_id'') = Inr tid
        \<and> py_getitem c (KStr ''trial_results_link'') = Inr url
        \<and> truthy url \<and> fetch_results env url = Inl msg \<longrightarrow>
        get_trial_data env c = Inr None)
   \<and> get_protocols_data env urls = List.map_filter (protocol_document env) urls
   \<and> detail_fetched (env\<lparr>fetch_protocol := f\<rparr>) c = detail_fetched env c"
proof (intro conjI impI)
  assume h: "list_all (trial_passes env) cards"
  from per_trial_loop_passes[OF h, of initial_state] obtain st' where
    st: "per_trial_loop env cards initial_state = Inr st'"
      "successful_trials st' = length (filter (detail_fetched env) cards)"
      "skipped st' = filter (\<lambda>c. \<not> detail_fetched env c) cards"
      "length (pushed st') = length (filter (detail_fetched env) cards)"
    by (auto simp: initial_state_def)
  then show "\<exists>st'. per_trial_loop env cards initial_state = Inr st'
         \<and> successful_trials st' = length (filter (detail_fetched env) cards)
         \<and> skipped st' = filter (\<lambda>c. \<not> detail_fetched env c) cards
         \<and> length (pushed st') = length (filter (detail_fetched env) cards)" by blast
  from st show "run_trials env cards = Inr (length (filter (detail_fetched env) cards), length cards)"
    by (simp add: run_trials_def initial_state_def)
next
  assume "py_getitem c (KStr ''trial_id'') = Inr tid"
  then show "\<exists>r. get_trial_data env c = Inr r" by (rule get_trial_data_caught)
next
  assume "py_getitem c (KStr ''trial_id'') = Inr tid
        \<and> py_getitem c (KStr ''trial_results_link'') = Inr url
        \<and> truthy url \<and> fetch_results env url = Inl msg"
  then show "get_trial_data env c = Inr None"
    using get_trial_data_results_failure by blast
next
  show "get_protocols_data env urls = List.map_filter (protocol_document env) urls"
    by (rule get_protocols_data_map_filter)
  show "detail_fetched (env\<lparr>fetch_protocol := f\<rparr>) c = detail_fetched env c"
    by (rule detail_fetched_fetch_protocol)
qed

lemma get_trial_data_example_failing_protocols:
  "get_trial_data failing_protocols (example_card [example_protocol_entry])
     = Inr (Some (PDict [(''card'', example_card [example_protocol_entry]),
                         (''trial_id'', PStr ''T1''), (''protocols'', PList [])]))"
  by (simp add: get_trial_data_def trial_data_body_def quiet_def failing_protocols_def
      example_card_def example_card_items_def example_protocol_entry_def
      example_protocol_items_def)

text \<open>
  C2, witness: the results page of the first trial cannot be fetched, and it
  is skipped; with every protocol page failing, both trials are still merged
  and counted.
\<close>

theorem per_trial_loop_isolates_fetch_failures_witness:
  "list_all (trial_passes quiet) [example_card_with_results, example_card [example_protocol_entry]]
   \<and> get_trial_data quiet example_card_with_results = Inr None
   \<and> run_trials quiet [example_card_with_results, example_card [example_protocol_entry]]
       = Inr (1, 2)
   \<and> get_protocols_data failing_protocols [PStr ''u''] = []
   \<and> run_trials failing_protocols
        [example_card [example_protocol_entry], example_card [example_protocol_entry]]
       = Inr (2, 2)"
proof -
  have p1: "trial_passes quiet example_card_with_results"
    by (simp add: trial_passes_def get_trial_data_example_failed)
       (simp add: example_card_with_results_def example_card_items_def)
  have p2: "trial_passes quiet (example_card [example_protocol_entry])"
    by (simp add: trial_passes_def get_trial_data_example update_record_example_trial_data)
       (simp add: quiet_def)
  have h: "list_all (trial_passes quiet)
             [example_card_with_results, example_card [example_protocol_entry]]"
    using p1 p2 by simp
  have d1: "\<not> detail_fetched quiet example_card_with_results"
    by (simp add: detail_fetched_def get_trial_data_example_failed)
  have d2: "detail_fetched quiet (example_card [example_protocol_entry])"
    by (simp add: detail_fetched_def get_trial_data_example)
  have r1: "run_trials quiet [example_card_with_results, example_card [example_protocol_entry]]
       = Inr (1, 2)"
    using per_trial_loop_isolates_fetch_failures[of quiet
      "[example_card_with_results, example_card [example_protocol_entry]]"] h d1 d2
    by simp
  have g: "py_getitem example_card_with_results (KStr ''trial_id'') = Inr (PStr ''T1'')
        \<and> py_getitem example_card_with_results (KStr ''trial_results_link'') = Inr (PStr ''r'')
        \<and> truthy (PStr ''r'') \<and> fetch_results quiet (PStr ''r'') = Inl ''timeout''"
    by (simp add: example_card_with_results_def example_card_items_def quiet_def)
  have n1: "get_trial_data quiet example_card_with_results = Inr None"
    using per_trial_loop_isolates_fetch_failures[of quiet "[]" example_card_with_results
      "PStr ''T1''" "PStr ''r''" "''timeout''"] g by simp
  have q: "get_protocols_data failing_protocols [PStr ''u''] = []"
    using per_trial_loop_isolates_fetch_failures[of failing_protocols "[]" PNone PNone PNone "[]"
      "[PStr ''u'']"]
    by (simp add: List.map_filter_simps protocol_document_def failing_protocols_def quiet_def)
  have p3: "trial_passes failing_protocols (example_card [example_protocol_entry])"
    by (simp add: trial_passes_def get_trial_data_example_failing_protocols update_record_example)
       (simp add: failing_protocols_def quiet_def)
  have h2: "list_all (trial_passes failing_protocols)
             [example_card [example_protocol_entry], example_card [example_protocol_entry]]"
    using p3 by simp
  have d3: "detail_fetched failing_protocols (example_card [example_protocol_entry])"
    by (simp add: detail_fetched_def get_trial_data_example_failing_protocols)
  have r2: "run_trials failing_protocols
        [example_card [example_protocol_entry], example_card [example_protocol_entry]]
       = Inr (2, 2)"
    using per_trial_loop_isolates_fetch_failures[of failing_protocols
      "[example_card [example_protocol_entry], example_card [example_protocol_entry]]"] h2 d3
    by simp
  from h n1 r1 q r2 show ?thesis by simp
qed

subsection \<open>Pagination resolver\<close>

lemma first_some_append_None:
  "list_all (\<lambda>x. f x = None) xs \<Longrightarrow> first_some f (xs @ ys) = first_some f ys"
  by (induction xs) simp_all

lemma first_some_upt:
  assumes "i0 < k" and "\<forall>i<i0. f i = None" and "f i0 = Some v"
  shows "first_some f [0..<k] = Some v"
proof -
  have sp: "[0..<k] = [0..<i0] @ i0 # [Suc i0..<k]"
    using assms(1) by (metis le_add2 le_add_same_cancel2 less_imp_le_nat upt_add_eq_append upt_conv_Cons le_add_diff_inverse)
  have "list_all (\<lambda>x. f x = None) [0..<i0]" using assms(2) by (simp add: list_all_iff)
  then show ?thesis using assms(3) by (simp add: sp first_some_append_None)
qed

lemma greedy_Suc: "lo \<le> Suc hi \<Longrightarrow> greedy lo (Suc hi) = Suc hi # greedy lo hi"
  by (simp add: greedy_def)

lemma greedy_set: "set (greedy lo hi) = {k. lo \<le> k \<and> k \<le> hi}"
  by (auto simp: greedy_def)

lemma first_some_greedy:
  "lo \<le> m0 \<Longrightarrow> m0 \<le> hi \<Longrightarrow> (\<forall>m. m0 < m \<and> m \<le> hi \<longrightarrow> f m = None) \<Longrightarrow> f m0 = Some v \<Longrightarrow>
   first_some f (greedy lo hi) = Some v"
proof (induction hi)
  case 0
  then show ?case by (simp add: greedy_def)
next
  case (Suc hi)
  show ?case
  proof (cases "m0 = Suc hi")
    case True
    with Suc.prems show ?thesis by (simp add: greedy_Suc)
  next
    case False
    with Suc.prems have le: "m0 \<le> hi" by simp
    from Suc.prems False have n: "f (Suc hi) = None" by simp
    have "first_some f (greedy lo hi) = Some v"
      using Suc.IH[OF Suc.prems(1) le _ Suc.prems(4)] Suc.prems(3) by simp
    with n Suc.prems(1) le show ?thesis by (simp add: greedy_Suc)
  qed
qed

lemma greedy_top_only: "\<forall>m. (k::nat) < m \<and> m \<le> k \<longrightarrow> f m = None"
  by auto

lemma first_some_Some: "first_some f xs = Some v \<Longrightarrow> \<exists>x \<in> set xs. f x = Some v"
  by (induction xs) (auto split: option.splits)

lemma first_some_None: "\<forall>x \<in> set xs. f x = None \<Longrightarrow> first_some f xs = None"
  by (induction xs) simp_all

lemma first_some_exists: "x \<in> set xs \<Longrightarrow> f x = Some v \<Longrightarrow> \<exists>w. first_some f xs = Some w"
  by (induction xs) (auto split: option.splits)

lemma first_some_None_iff: "(first_some f xs = None) = (\<forall>x \<in> set xs. f x = None)"
  by (induction xs) (auto split: option.splits)

lemma first_some_snoc:
  "first_some f (xs @ [x]) = (case first_some f xs of None \<Rightarrow> f x | Some y \<Rightarrow> Some y)"
  by (induction xs) (auto split: option.splits)

text \<open>The start positions are tried from the left: no earlier one matches.\<close>

lemma first_some_upt_first:
  "first_some f [0..<k] = Some v \<Longrightarrow> \<exists>i<k. f i = Some v \<and> (\<forall>j<i. f j = None)"
proof (induction k)
  case 0
  then show ?case by simp
next
  case (Suc k)
  show ?case
  proof (cases "first_some f [0..<k]")
    case None
    then have all: "\<forall>j<k. f j = None" by (simp add: first_some_None_iff)
    from Suc.prems None have "f k = Some v" by (simp add: first_some_snoc)
    with all show ?thesis by blast
  next
    case (Some w)
    with Suc.prems have "w = v" by (simp add: first_some_snoc)
    with Some Suc.IH obtain i where "i < k" "f i = Some v" "\<forall>j<i. f j = None" by blast
    then show ?thesis by (meson less_Suc_eq)
  qed
qed

text \<open>A greedy repetition gives back from the longest: no longer candidate matches.\<close>

lemma first_some_greedy_last:
  "first_some f (greedy lo hi) = Some v \<Longrightarrow>
   \<exists>m. lo \<le> m \<and> m \<le> hi \<and> f m = Some v \<and> (\<forall>m'. m < m' \<and> m' \<le> hi \<longrightarrow> f m' = None)"
proof (induction hi)
  case 0
  then show ?case by (cases "lo = 0") (auto simp: greedy_def split: option.splits)
next
  case (Suc hi)
  show ?case
  proof (cases "lo \<le> Suc hi")
    case False
    with Suc.prems show ?thesis by (simp add: greedy_def)
  next
    case True
    show ?thesis
    proof (cases "f (Suc hi)")
      case (Some w)
      with Suc.prems True have "w = v" by (simp add: greedy_Suc)
      with Some True show ?thesis by auto
    next
      case None
      with Suc.prems True have "first_some f (greedy lo hi) = Some v" by (simp add: greedy_Suc)
      from Suc.IH[OF this] obtain m where m: "lo \<le> m" "m \<le> hi" "f m = Some v"
        "\<forall>m'. m < m' \<and> m' \<le> hi \<longrightarrow> f m' = None" by blast
      have "\<forall>m'. m < m' \<and> m' \<le> Suc hi \<longrightarrow> f m' = None"
        using m(4) None by (auto simp: le_Suc_eq)
      with m show ?thesis by (meson le_SucI)
    qed
  qed
qed

lemma takeWhile_dropWhile_nil: "takeWhile P (dropWhile P xs) = []"
  by (induction xs) simp_all

lemma one_line: "CHR 0x0A \<notin> set s \<Longrightarrow> takeWhile (\<lambda>c. c \<noteq> CHR 0x0A) s = s"
  by (simp add: takeWhile_eq_all_conv) auto

lemma contains_str_drop: "prefix q (drop j s) \<Longrightarrow> contains_str q s"
proof (induction s arbitrary: j)
  case Nil
  then show ?case by simp
next
  case (Cons c cs)
  then show ?case by (cases j) auto
qed

lemma takeWhile_digits:
  "list_all is_digit d \<Longrightarrow> takeWhile is_digit (d @ r) = d @ takeWhile is_digit r"
  by (induction d) simp_all

lemma digit_run_digits_space:
  "list_all is_digit d \<Longrightarrow> digit_run (d @ CHR '' '' # r) = length d"
  by (simp add: digit_run_def takeWhile_digits is_digit_def)

lemma not_digit_p: "is_digit c \<Longrightarrow> c \<noteq> CHR ''p''"
  by (auto simp: is_digit_def)

lemma not_digit_space: "is_digit c \<Longrightarrow> c \<noteq> CHR '' ''"
  by (auto simp: is_digit_def)

lemma drop_literal: "length l = k \<Longrightarrow> drop (k + j) (l @ r) = drop j r"
  by simp

text \<open>Inside a run of digits the next character is a digit.\<close>

lemma digit_run_drop:
  assumes "k < digit_run s"
  shows "\<exists>c cs. drop k s = c # cs \<and> is_digit c"
proof -
  from assms have k: "k < length (takeWhile is_digit s)" by (simp add: digit_run_def)
  then have kl: "k < length s" using length_takeWhile_le[of is_digit s] by simp
  have "takeWhile is_digit s ! k \<in> set (takeWhile is_digit s)" using k by (rule nth_mem)
  then have "is_digit (takeWhile is_digit s ! k)" by (auto dest: set_takeWhileD)
  then have "is_digit (s ! k)" using takeWhile_nth[OF k] by simp
  moreover have "drop k s = s ! k # drop (Suc k) s" using kl by (simp add: Cons_nth_drop_Suc)
  ultimately show ?thesis by blast
qed

lemma take_digit_run: "k \<le> digit_run s \<Longrightarrow> list_all is_digit (take k s)"
proof -
  assume k: "k \<le> digit_run s"
  have "take k (takeWhile is_digit s) = take k s"
    using k by (subst takeWhile_eq_take) (simp add: digit_run_def min_def)
  then have "set (take k s) \<subseteq> set (takeWhile is_digit s)"
    using set_take_subset[of k "takeWhile is_digit s"] by simp
  then show ?thesis by (auto simp: list_all_iff dest: set_takeWhileD)
qed

lemma prefix_split: "prefix q (drop j s) \<Longrightarrow> s = take j s @ q @ drop (j + length q) s"
proof -
  assume "prefix q (drop j s)"
  then obtain r where r: "drop j s = q @ r" by (auto simp: prefix_def)
  then have "drop (length q) (drop j s) = r" by simp
  then have "drop (j + length q) s = r" by (simp add: add.commute)
  moreover have "s = take j s @ drop j s" by simp
  ultimately show ?thesis using r by simp
qed

text \<open>Where no number found starts, or no page part, the matcher fails.\<close>

lemma match_here_None:
  assumes "\<not> number_found s"
  shows "match_here s = None"
proof -
  let ?f = "\<lambda>n. if prefix '' result(s) found'' (drop n s)
            then map_option (\<lambda>pages. (take n s, pages)) (match_any (drop (n + 16) s))
            else None"
  have "\<forall>k \<in> set (greedy 1 (digit_run s)). ?f k = None"
  proof
    fix k assume "k \<in> set (greedy 1 (digit_run s))"
    then have k: "1 \<le> k" "k \<le> digit_run s" by (simp_all add: greedy_set)
    have "\<not> prefix '' result(s) found'' (drop k s)"
    proof (cases "k = digit_run s")
      case True
      with assms k show ?thesis by (simp add: number_found_def)
    next
      case False
      with k have "k < digit_run s" by simp
      from digit_run_drop[OF this] obtain c cs where "drop k s = c # cs" "is_digit c" by blast
      then show ?thesis by (auto dest: not_digit_space)
    qed
    then show "?f k = None" by simp
  qed
  then show ?thesis unfolding match_here_def by (rule first_some_None)
qed

lemma match_pages_None:
  assumes "\<not> page_part s"
  shows "match_pages s = None"
proof (cases "prefix ''page '' s")
  case False
  then show ?thesis by (simp add: match_pages_def)
next
  case True
  let ?r = "digit_run (drop 5 s)"
  let ?f = "\<lambda>p. if prefix '' of '' (drop (5 + p) s)
                  then (if digit_run (drop (5 + p + 4) s) \<noteq> 0
                        then Some (takeWhile is_digit (drop (5 + p + 4) s)) else None)
                  else None"
  have "\<forall>k \<in> set (greedy 1 ?r). ?f k = None"
  proof
    fix k assume "k \<in> set (greedy 1 ?r)"
    then have k: "1 \<le> k" "k \<le> ?r" by (simp_all add: greedy_set)
    show "?f k = None"
    proof (cases "k = ?r")
      case eq: True
      have a: "5 + ?r + 4 = 9 + ?r" by simp
      from k eq have "?r \<noteq> 0" by simp
      with assms True
      have "\<not> (prefix '' of '' (drop (5 + ?r) s) \<and> digit_run (drop (9 + ?r) s) \<noteq> 0)"
        unfolding page_part_def by blast
      then show ?thesis unfolding eq a by auto
    next
      case False
      with k have "k < ?r" by simp
      from digit_run_drop[OF this] obtain c cs where d: "drop k (drop 5 s) = c # cs" and c: "is_digit c"
        by blast
      have "drop (5 + k) s = c # cs" using d by (simp add: add.commute)
      with c have "\<not> prefix '' of '' (drop (5 + k) s)" by (auto dest: not_digit_space)
      then show ?thesis by simp
    qed
  qed
  then have "first_some ?f (greedy 1 ?r) = None" by (rule first_some_None)
  with True show ?thesis by (simp add: match_pages_def)
qed

lemma prefix_not_in:
  assumes "c \<notin> set y" and "k < length y"
  shows "\<not> prefix (c # q) (drop k (y @ post))"
proof -
  from assms(2) obtain a as where d: "drop k y = a # as" by (cases "drop k y") auto
  then have "a \<in> set y" by (metis in_set_dropD list.set_intros(1))
  with assms(1) have "a \<noteq> c" by auto
  with d assms(2) show ?thesis by simp
qed

lemma drop_past: "\<not> k < length y \<Longrightarrow> drop k (y @ post) = drop (k - length y) post"
  by simp

lemma match_pages_later:
  assumes "list_all is_digit p" and "list_all is_digit tot"
    and "list_all (\<lambda>j. \<not> page_part (drop j post)) [0..<length post]" and "0 < m"
  shows "match_pages (drop m (''page '' @ p @ '' of '' @ tot @ post)) = None"
proof -
  let ?y = "''age '' @ p @ '' of '' @ tot"
  have ny: "CHR ''p'' \<notin> set ?y"
    using assms(1,2) by (auto simp: list_all_iff dest: not_digit_p)
  from assms(4) obtain k where m: "m = Suc k" by (cases m) auto
  have eq: "drop m (''page '' @ p @ '' of '' @ tot @ post) = drop k (?y @ post)"
    by (simp add: m)
  show ?thesis
  proof (cases "k < length ?y")
    case True
    have "\<not> prefix ''page '' (drop k (?y @ post))"
      using prefix_not_in[OF ny True, of "''age ''" post] by simp
    then show ?thesis unfolding eq by (simp add: match_pages_def)
  next
    case False
    then have dk: "drop k (?y @ post) = drop (k - length ?y) post" by (rule drop_past)
    show ?thesis
    proof (cases "k - length ?y < length post")
      case True
      with assms(3) have "\<not> page_part (drop (k - length ?y) post)" by (simp add: list_all_iff)
      then show ?thesis unfolding eq dk by (rule match_pages_None)
    next
      case False
      then have "drop (k - length ?y) post = []" by simp
      then show ?thesis unfolding eq dk by (simp add: match_pages_def)
    qed
  qed
qed

lemma match_pages_here:
  assumes "digits p" and "digits tot"
  shows "match_pages (''page '' @ p @ '' of '' @ tot @ post) = Some (tot @ takeWhile is_digit post)"
proof -
  let ?s = "''page '' @ p @ '' of '' @ tot @ post"
  from assms have lp: "list_all is_digit p" and lt: "list_all is_digit tot"
    and np: "p \<noteq> []" and nt: "tot \<noteq> []" by (simp_all add: digits_def)
  have d5: "drop 5 ?s = p @ '' of '' @ tot @ post" by simp
  have run: "digit_run (drop 5 ?s) = length p"
    unfolding d5 using digit_run_digits_space[OF lp] by simp
  have d1: "drop (5 + length p) ?s = '' of '' @ tot @ post"
    using drop_literal[of "''page '' @ p" "5 + length p" 0 "'' of '' @ tot @ post"] by simp
  have d2: "drop (5 + length p + 4) ?s = tot @ post"
    using drop_literal[of "''page '' @ p @ '' of ''" "5 + length p + 4" 0 "tot @ post"] by simp
  have tw: "takeWhile is_digit (tot @ post) = tot @ takeWhile is_digit post"
    using takeWhile_digits[OF lt, of post] by simp
  let ?f = "\<lambda>p. if prefix '' of '' (drop (5 + p) ?s)
                  then (if digit_run (drop (5 + p + 4) ?s) \<noteq> 0
                        then Some (takeWhile is_digit (drop (5 + p + 4) ?s)) else None)
                  else None"
  have f: "?f (length p) = Some (tot @ takeWhile is_digit post)"
    unfolding d1 d2 using nt by (simp add: digit_run_def tw)
  have lp1: "1 \<le> length p" using np by (cases p) simp_all
  have none: "\<forall>m. length p < m \<and> m \<le> length p \<longrightarrow> ?f m = None"
    by (rule greedy_top_only)
  have "first_some ?f (greedy 1 (length p)) = Some (tot @ takeWhile is_digit post)"
    using lp1 le_refl none f by (rule first_some_greedy)
  moreover have "prefix ''page '' ?s" by simp
  ultimately show ?thesis unfolding match_pages_def run by (simp only: if_True)
qed

lemma page_part_match: "page_part s \<Longrightarrow> \<exists>g. match_pages s = Some g"
proof -
  assume pp: "page_part s"
  let ?r = "digit_run (drop 5 s)"
  let ?f = "\<lambda>p. if prefix '' of '' (drop (5 + p) s)
                  then (if digit_run (drop (5 + p + 4) s) \<noteq> 0
                        then Some (takeWhile is_digit (drop (5 + p + 4) s)) else None)
                  else None"
  from pp have pre: "prefix ''page '' s" and r: "?r \<noteq> 0"
    and "of": "prefix '' of '' (drop (5 + ?r) s)" and dr: "digit_run (drop (9 + ?r) s) \<noteq> 0"
    by (simp_all add: page_part_def)
  have a: "5 + ?r + 4 = 9 + ?r" by simp
  have "?f ?r = Some (takeWhile is_digit (drop (9 + ?r) s))"
    unfolding a using "of" dr by simp
  moreover have "?r \<in> set (greedy 1 ?r)" using r by (simp add: greedy_set)
  ultimately obtain w where "first_some ?f (greedy 1 ?r) = Some w"
    using first_some_exists[where f = ?f] by blast
  with pre show ?thesis by (simp add: match_pages_def)
qed

lemma match_any_reach:
  assumes "CHR 0x0A \<notin> set X" and "m \<le> length X" and "match_pages (drop m X) = Some v"
  shows "\<exists>w. match_any X = Some w"
proof -
  have tw: "takeWhile (\<lambda>c. c \<noteq> CHR 0x0A) X = X" using assms(1) by (rule one_line)
  have mem: "m \<in> set (greedy 0 (length X))" using assms(2) by (simp add: greedy_set)
  from first_some_exists[where f = "\<lambda>m. match_pages (drop m X)", OF mem assms(3)]
  show ?thesis unfolding match_any_def tw .
qed

lemma match_here_found:
  assumes "number_found s" and "match_any (drop (digit_run s + 16) s) = Some w"
  shows "match_here s = Some (take (digit_run s) s, w)"
proof -
  let ?f = "\<lambda>n. if prefix '' result(s) found'' (drop n s)
            then map_option (\<lambda>pages. (take n s, pages)) (match_any (drop (n + 16) s))
            else None"
  from assms(1) have d0: "1 \<le> digit_run s"
    and pl: "prefix '' result(s) found'' (drop (digit_run s) s)"
    by (simp_all add: number_found_def Suc_le_eq)
  have f: "?f (digit_run s) = Some (take (digit_run s) s, w)"
    using pl assms(2) by (simp only: if_True option.map)
  have none: "\<forall>m. digit_run s < m \<and> m \<le> digit_run s \<longrightarrow> ?f m = None"
    by (rule greedy_top_only)
  have "first_some ?f (greedy 1 (digit_run s)) = Some (take (digit_run s) s, w)"
    using d0 le_refl none f by (rule first_some_greedy)
  then show ?thesis unfolding match_here_def .
qed

lemma line_reaches:
  assumes "CHR 0x0A \<notin> set mid"
  shows "length mid \<le> length (takeWhile (\<lambda>c. c \<noteq> CHR 0x0A) (mid @ x))"
proof -
  have "takeWhile (\<lambda>c. c \<noteq> CHR 0x0A) (mid @ x) = mid @ takeWhile (\<lambda>c. c \<noteq> CHR 0x0A) x"
    by (rule takeWhile_append2) (use assms in auto)
  then show ?thesis by (simp only: length_append le_add1)
qed

lemma match_any_here:
  assumes "digits p" and "digits tot" and "takeWhile is_digit post = []"
    and "list_all (\<lambda>j. \<not> page_part (drop j post)) [0..<length post]"
    and "CHR 0x0A \<notin> set mid"
  shows "match_any (mid @ ''page '' @ p @ '' of '' @ tot @ post) = Some tot"
proof -
  let ?x = "''page '' @ p @ '' of '' @ tot @ post"
  from assms have lp: "list_all is_digit p" and lt: "list_all is_digit tot"
    by (simp_all add: digits_def)
  let ?K = "length (takeWhile (\<lambda>c. c \<noteq> CHR 0x0A) (mid @ ?x))"
  have K: "length mid \<le> ?K" using assms(5) by (rule line_reaches)
  have later: "\<forall>m. length mid < m \<and> m \<le> ?K \<longrightarrow> match_pages (drop m (mid @ ?x)) = None"
  proof (intro allI impI)
    fix m assume m: "length mid < m \<and> m \<le> ?K"
    then have "drop m (mid @ ?x) = drop (m - length mid) ?x" by simp
    moreover have "match_pages (drop (m - length mid) ?x) = None"
      by (rule match_pages_later[OF lp lt assms(4)]) (use m in simp)
    ultimately show "match_pages (drop m (mid @ ?x)) = None" by (simp only:)
  qed
  have "drop (length mid) (mid @ ?x) = ?x" by simp
  then have here: "match_pages (drop (length mid) (mid @ ?x)) = Some tot"
    using match_pages_here[OF assms(1,2), of post] assms(3) by simp
  have "first_some (\<lambda>m. match_pages (drop m (mid @ ?x))) (greedy 0 ?K) = Some tot"
    using le0 K later here by (rule first_some_greedy)
  then show ?thesis by (simp only: match_any_def)
qed

lemma match_any_exists:
  assumes "digits p" and "digits tot" and "CHR 0x0A \<notin> set mid"
  shows "\<exists>w. match_any (mid @ ''page '' @ p @ '' of '' @ tot @ post) = Some w"
proof -
  let ?x = "''page '' @ p @ '' of '' @ tot @ post"
  let ?K = "length (takeWhile (\<lambda>c. c \<noteq> CHR 0x0A) (mid @ ?x))"
  have K: "length mid \<le> ?K" using assms(3) by (rule line_reaches)
  then have mem: "length mid \<in> set (greedy 0 ?K)" by (simp add: greedy_set)
  have "drop (length mid) (mid @ ?x) = ?x" by simp
  then have here: "match_pages (drop (length mid) (mid @ ?x)) = Some (tot @ takeWhile is_digit post)"
    using match_pages_here[OF assms(1,2), of post] by simp
  from first_some_exists[where f = "\<lambda>m. match_pages (drop m (mid @ ?x))", OF mem here]
  show ?thesis by (simp only: match_any_def)
qed

lemma match_here_with:
  assumes "digits n" and "match_any x = Some w"
  shows "match_here (n @ '' result(s) found'' @ x) = Some (n, w)"
proof -
  let ?s = "n @ '' result(s) found'' @ x"
  from assms(1) have ln: "list_all is_digit n" and nn: "n \<noteq> []" by (simp_all add: digits_def)
  have run: "digit_run ?s = length n"
    using digit_run_digits_space[OF ln] by simp
  have d1: "drop (length n) ?s = '' result(s) found'' @ x" by simp
  have d2: "drop (length n + 16) ?s = x"
    using drop_literal[of "n @ '' result(s) found''" "length n + 16" 0 x] by simp
  have t1: "take (length n) ?s = n" by simp
  let ?f = "\<lambda>k. if prefix '' result(s) found'' (drop k ?s)
            then map_option (\<lambda>pages. (take k ?s, pages)) (match_any (drop (k + 16) ?s))
            else None"
  have pr: "prefix '' result(s) found'' ('' result(s) found'' @ x)" by simp
  have f: "?f (length n) = Some (n, w)"
    unfolding d1 d2 t1 using pr assms(2) by (simp only: if_True option.map)
  have n1: "1 \<le> length n" using nn by (cases n) simp_all
  have none: "\<forall>m. length n < m \<and> m \<le> length n \<longrightarrow> ?f m = None"
    by (rule greedy_top_only)
  have "first_some ?f (greedy 1 (length n)) = Some (n, w)"
    using n1 le_refl none f by (rule first_some_greedy)
  then show ?thesis unfolding match_here_def run by (simp only:)
qed

lemma re_search_pattern_at:
  assumes "digits n" and "digits p" and "digits tot" and "takeWhile is_digit post = []"
    and "list_all (\<lambda>j. \<not> page_part (drop j post)) [0..<length post]"
    and "CHR 0x0A \<notin> set mid"
    and "list_all (\<lambda>i. \<not> number_found
            (drop i (pre @ n @ '' result(s) found'' @ mid @ ''page '' @ p @ '' of '' @ tot @ post)))
          [0..<length pre]"
  shows "re_search_pattern
           (pre @ n @ '' result(s) found'' @ mid @ ''page '' @ p @ '' of '' @ tot @ post)
         = Some (n, tot)"
proof -
  let ?s = "n @ '' result(s) found'' @ mid @ ''page '' @ p @ '' of '' @ tot @ post"
  let ?f = "\<lambda>i. match_here (drop i (pre @ ?s))"
  have before: "\<forall>i<length pre. ?f i = None"
    using assms(7) by (auto simp: list_all_iff intro: match_here_None)
  have "drop (length pre) (pre @ ?s) = ?s" by simp
  then have at: "?f (length pre) = Some (n, tot)"
    using match_here_with[OF assms(1) match_any_here[OF assms(2,3,4,5,6)]] by (simp only:)
  have lt: "length pre < Suc (length (pre @ ?s))" by simp
  show ?thesis unfolding re_search_pattern_def using lt before at by (rule first_some_upt)
qed

text \<open>Every text with a part of the form is matched.\<close>

lemma re_search_pattern_complete:
  assumes "digits n" and "digits p" and "digits tot" and "CHR 0x0A \<notin> set mid"
  shows "\<exists>r. re_search_pattern
           (pre @ n @ '' result(s) found'' @ mid @ ''page '' @ p @ '' of '' @ tot @ post)
         = Some r"
proof -
  let ?s = "n @ '' result(s) found'' @ mid @ ''page '' @ p @ '' of '' @ tot @ post"
  from match_any_exists[OF assms(2,3,4), of post] obtain w where
    "match_any (mid @ ''page '' @ p @ '' of '' @ tot @ post) = Some w" by blast
  from match_here_with[OF assms(1) this] have "match_here ?s = Some (n, w)" .
  moreover have "drop (length pre) (pre @ ?s) = ?s" by simp
  ultimately have at: "match_here (drop (length pre) (pre @ ?s)) = Some (n, w)" by (simp only:)
  have mem: "length pre \<in> set [0..<Suc (length (pre @ ?s))]" by simp
  from first_some_exists[where f = "\<lambda>i. match_here (drop i (pre @ ?s))", OF mem at]
  show ?thesis by (simp only: re_search_pattern_def)
qed

text \<open>
  Every match is a part of the form, and the groups are its two numbers: the
  first number found and the whole number of the last page part.
\<close>

lemma match_pages_sound:
  assumes "match_pages s = Some g"
  shows "\<exists>p post. s = ''page '' @ p @ '' of '' @ g @ post \<and> digits p \<and> digits g
                   \<and> takeWhile is_digit post = []"
proof -
  let ?f = "\<lambda>p. if prefix '' of '' (drop (5 + p) s)
                  then (if digit_run (drop (5 + p + 4) s) \<noteq> 0
                        then Some (takeWhile is_digit (drop (5 + p + 4) s)) else None)
                  else None"
  from assms have pre: "prefix ''page '' s"
    by (cases "prefix ''page '' s") (simp_all add: match_pages_def)
  with assms have "first_some ?f (greedy 1 (digit_run (drop 5 s))) = Some g"
    by (simp add: match_pages_def)
  from first_some_Some[OF this] obtain k where
    k: "k \<in> set (greedy 1 (digit_run (drop 5 s)))" and fk: "?f k = Some g" by blast
  from k have k1: "1 \<le> k" and k2: "k \<le> digit_run (drop 5 s)" by (simp_all add: greedy_set)
  from fk have "of": "prefix '' of '' (drop (5 + k) s)"
    and run: "digit_run (drop (5 + k + 4) s) \<noteq> 0"
    and g: "g = takeWhile is_digit (drop (5 + k + 4) s)"
    by (auto split: if_splits)
  from pre obtain r where s: "s = ''page '' @ r" by (auto simp: prefix_def)
  have r: "drop 5 s = r" by (simp add: s)
  have dk: "drop (5 + k) s = drop k r"
    using drop_literal[of "''page ''" 5 k r] by (simp add: s)
  from "of" obtain r2 where r2: "drop k r = '' of '' @ r2" unfolding dk by (auto simp: prefix_def)
  have dk4: "drop (5 + k + 4) s = r2"
  proof -
    have "drop (5 + k + 4) s = drop 4 (drop (5 + k) s)" by (simp add: add.commute)
    then show ?thesis unfolding dk r2 by simp
  qed
  have kr: "k \<le> length r"
    using k2 length_takeWhile_le[of is_digit r] unfolding r digit_run_def by simp
  have p: "digits (take k r)"
    using take_digit_run[of k r] k2 k1 kr unfolding r by (auto simp: digits_def)
  have gd: "digits g"
    using run unfolding g dk4 digit_run_def digits_def
    by (auto simp: list_all_iff dest: set_takeWhileD)
  have "r = take k r @ drop k r" by simp
  then have "r = take k r @ '' of '' @ g @ dropWhile is_digit r2"
    unfolding r2 g dk4 by simp
  then have "s = ''page '' @ take k r @ '' of '' @ g @ dropWhile is_digit r2"
    using s by simp
  moreover have "takeWhile is_digit (dropWhile is_digit r2) = []"
    by (rule takeWhile_dropWhile_nil)
  ultimately show ?thesis using p gd by blast
qed

lemma match_any_sound:
  assumes "match_any s = Some g" and "CHR 0x0A \<notin> set s"
  shows "\<exists>mid p post. s = mid @ ''page '' @ p @ '' of '' @ g @ post \<and> digits p \<and> digits g
           \<and> takeWhile is_digit post = []
           \<and> list_all (\<lambda>j. \<not> page_part (drop j post)) [0..<length post]"
proof -
  have tw: "takeWhile (\<lambda>c. c \<noteq> CHR 0x0A) s = s" using assms(2) by (rule one_line)
  from first_some_greedy_last[OF assms(1)[unfolded match_any_def tw]] obtain m where
    m: "m \<le> length s" and at: "match_pages (drop m s) = Some g"
    and later: "\<forall>m'. m < m' \<and> m' \<le> length s \<longrightarrow> match_pages (drop m' s) = None"
    by blast
  from match_pages_sound[OF at] obtain p post where
    d: "drop m s = ''page '' @ p @ '' of '' @ g @ post"
    and pg: "digits p" "digits g" "takeWhile is_digit post = []" by blast
  define h where "h = ''page '' @ p @ '' of '' @ g"
  have dh: "drop m s = h @ post" using d by (simp add: h_def)
  have hn: "0 < length h" by (simp add: h_def)
  have ls: "length s = m + length h + length post"
  proof -
    have "length (drop m s) = length h + length post" unfolding dh by simp
    with m show ?thesis by simp
  qed
  have "s = take m s @ drop m s" by simp
  then have s: "s = take m s @ ''page '' @ p @ '' of '' @ g @ post" unfolding d .
  have "list_all (\<lambda>j. \<not> page_part (drop j post)) [0..<length post]"
    unfolding list_all_iff
  proof
    fix j assume "j \<in> set [0..<length post]"
    then have j: "j < length post" by simp
    have "drop (m + length h + j) s = drop (length h + j) (drop m s)"
      by (simp add: add.commute add.left_commute)
    also have "\<dots> = drop j post" unfolding dh by (rule drop_literal) simp
    finally have dj: "drop (m + length h + j) s = drop j post" .
    have "m < m + length h + j \<and> m + length h + j \<le> length s" using hn j ls by simp
    with later have "match_pages (drop (m + length h + j) s) = None" by blast
    then have "match_pages (drop j post) = None" unfolding dj .
    then show "\<not> page_part (drop j post)" using page_part_match[of "drop j post"] by auto
  qed
  with s pg show ?thesis by blast
qed

lemma match_here_sound:
  assumes "match_here s = Some (g1, g2)" and "CHR 0x0A \<notin> set s"
  shows "\<exists>mid p post. s = g1 @ '' result(s) found'' @ mid @ ''page '' @ p @ '' of '' @ g2 @ post
           \<and> digits g1 \<and> digits p \<and> digits g2
           \<and> takeWhile is_digit post = []
           \<and> list_all (\<lambda>j. \<not> page_part (drop j post)) [0..<length post]"
proof -
  let ?f = "\<lambda>n. if prefix '' result(s) found'' (drop n s)
            then map_option (\<lambda>pages. (take n s, pages)) (match_any (drop (n + 16) s))
            else None"
  from first_some_Some[OF assms(1)[unfolded match_here_def]] obtain k where
    k: "k \<in> set (greedy 1 (digit_run s))" and fk: "?f k = Some (g1, g2)" by blast
  from k have k1: "1 \<le> k" and k2: "k \<le> digit_run s" by (simp_all add: greedy_set)
  from fk have lit: "prefix '' result(s) found'' (drop k s)"
    and ma: "match_any (drop (k + 16) s) = Some g2" and g1: "g1 = take k s"
    by (auto split: if_splits)
  have kl: "k \<le> length s"
    using k2 length_takeWhile_le[of is_digit s] unfolding digit_run_def by simp
  have d1: "digits g1"
    using take_digit_run[OF k2] k1 kl unfolding g1 by (auto simp: digits_def)
  have nl: "CHR 0x0A \<notin> set (drop (k + 16) s)" using assms(2) by (auto dest: in_set_dropD)
  from match_any_sound[OF ma nl] obtain mid p post where
    x: "drop (k + 16) s = mid @ ''page '' @ p @ '' of '' @ g2 @ post"
    and pg: "digits p" "digits g2" "takeWhile is_digit post = []"
      "list_all (\<lambda>j. \<not> page_part (drop j post)) [0..<length post]" by blast
  have len: "k + length '' result(s) found'' = k + 16" by simp
  have "s = take k s @ '' result(s) found'' @ drop (k + 16) s"
    using prefix_split[OF lit] unfolding len .
  also have "\<dots> = g1 @ '' result(s) found'' @ mid @ ''page '' @ p @ '' of '' @ g2 @ post"
    by (simp only: x g1)
  finally show ?thesis using d1 pg by blast
qed

text \<open>
  A number found that starts before the match would have matched itself: the
  page part of the match lies behind it as well.
\<close>

lemma earlier_number_matches:
  assumes nf: "number_found (drop j text)" and ji: "j < i"
    and d: "drop i text = g1 @ '' result(s) found'' @ mid @ ''page '' @ p @ '' of '' @ g2 @ post"
    and dg: "digits p" "digits g2" and nl: "CHR 0x0A \<notin> set text"
  shows "\<exists>r. match_here (drop j text) = Some r"
proof -
  define lit where "lit = '' result(s) found''"
  define PP where "PP = ''page '' @ p @ '' of '' @ g2 @ post"
  define dr where "dr = digit_run (drop j text)"
  define P where "P = i + (length g1 + 16 + length mid)"
  have ll: "length lit = 16" by (simp add: lit_def)
  have d': "drop i text = (g1 @ lit @ mid) @ PP" using d by (simp add: lit_def PP_def)
  have le: "j + dr \<le> i + length g1"
  proof (rule ccontr)
    assume "\<not> j + dr \<le> i + length g1"
    then have lt: "i + length g1 - j < digit_run (drop j text)" using ji by (simp add: dr_def)
    from digit_run_drop[OF lt] obtain c cs where
      c: "drop (i + length g1 - j) (drop j text) = c # cs" and cd: "is_digit c" by blast
    have "drop (i + length g1 - j) (drop j text) = drop (length g1) (drop i text)"
      using ji by (simp add: add.commute)
    also have "\<dots> = lit @ mid @ PP" unfolding d' by simp
    finally have "c = CHR '' ''" using c by (simp add: lit_def)
    with cd show False by (auto dest: not_digit_space)
  qed
  have "drop P text = drop (length g1 + 16 + length mid) (drop i text)"
    by (simp add: P_def add.commute)
  also have "\<dots> = drop (length (g1 @ lit @ mid) + 0) ((g1 @ lit @ mid) @ PP)"
    unfolding d' by (simp add: ll)
  also have "\<dots> = drop 0 PP" by (rule drop_literal) simp
  finally have dP: "drop P text = PP" by simp
  have mp: "match_pages (drop P text) = Some (g2 @ takeWhile is_digit post)"
    unfolding dP PP_def by (rule match_pages_here[OF dg])
  have il: "i \<le> length text"
  proof (rule ccontr)
    assume "\<not> i \<le> length text"
    then have "drop i text = []" by simp
    with d' show False by (simp add: lit_def)
  qed
  have "length (drop i text) = length g1 + 16 + length mid + length PP"
    unfolding d' by (simp add: ll)
  with il have Pl: "P \<le> length text" by (simp add: P_def)
  let ?X = "drop (dr + 16) (drop j text)"
  have ge: "j + dr + 16 \<le> P" using le by (simp add: P_def)
  have X: "drop (P - (j + dr + 16)) ?X = drop P text" using ge by (simp add: add.commute)
  have mX: "P - (j + dr + 16) \<le> length ?X" using Pl ge by simp
  have nlX: "CHR 0x0A \<notin> set ?X" using nl by (auto dest: in_set_dropD)
  from match_any_reach[OF nlX mX] mp X obtain w where w: "match_any ?X = Some w" by auto
  from match_here_found[OF nf w[unfolded dr_def]] show ?thesis by blast
qed

lemma re_search_pattern_sound:
  assumes "re_search_pattern text = Some (g1, g2)" and "CHR 0x0A \<notin> set text"
  shows "\<exists>pre mid p post.
           text = pre @ g1 @ '' result(s) found'' @ mid @ ''page '' @ p @ '' of '' @ g2 @ post
           \<and> digits g1 \<and> digits p \<and> digits g2
           \<and> list_all (\<lambda>i. \<not> number_found (drop i text)) [0..<length pre]
           \<and> takeWhile is_digit post = []
           \<and> list_all (\<lambda>j. \<not> page_part (drop j post)) [0..<length post]"
proof -
  from first_some_upt_first[OF assms(1)[unfolded re_search_pattern_def]] obtain i where
    i: "i < Suc (length text)" and at: "match_here (drop i text) = Some (g1, g2)"
    and before: "\<forall>j<i. match_here (drop j text) = None" by blast
  have nl: "CHR 0x0A \<notin> set (drop i text)" using assms(2) by (auto dest: in_set_dropD)
  from match_here_sound[OF at nl] obtain mid p post where
    d: "drop i text = g1 @ '' result(s) found'' @ mid @ ''page '' @ p @ '' of '' @ g2 @ post"
    and dg: "digits g1" "digits p" "digits g2" "takeWhile is_digit post = []"
      "list_all (\<lambda>j. \<not> page_part (drop j post)) [0..<length post]" by blast
  have len: "length (take i text) = i" using i by simp
  have "text = take i text @ drop i text" by simp
  then have whole: "text = take i text @ g1 @ '' result(s) found'' @ mid @ ''page '' @ p @ '' of '' @ g2 @ post"
    unfolding d .
  have first: "list_all (\<lambda>j. \<not> number_found (drop j text)) [0..<length (take i text)]"
    unfolding len list_all_iff
  proof
    fix j assume "j \<in> set [0..<i]"
    then have j: "j < i" by simp
    show "\<not> number_found (drop j text)"
    proof
      assume "number_found (drop j text)"
      from earlier_number_matches[OF this j d dg(2,3) assms(2)] before j show False by auto
    qed
  qed
  from whole dg first show ?thesis by blast
qed

lemma collapse_spaces_chars:
  "c \<in> set (collapse_spaces s) \<Longrightarrow> c = CHR '' '' \<or> \<not> is_space c"
proof (induction s rule: collapse_spaces.induct)
  case 1
  then show ?case by simp
next
  case (2 a cs)
  then show ?case by (cases "is_space a") auto
qed

lemma strip_subset: "set (strip s) \<subseteq> set s"
proof -
  have "set (strip s) \<subseteq> set (dropWhile is_space s)"
    unfolding strip_def by (auto dest: set_dropWhileD)
  then show ?thesis by (auto dest: set_dropWhileD)
qed

lemma normalise_no_newline: "CHR 0x0A \<notin> set (normalise t)"
proof
  assume "CHR 0x0A \<in> set (normalise t)"
  then have "CHR 0x0A \<in> set (collapse_spaces (remove_commas (remove_double_spaces (strip t))))"
    unfolding normalise_def using strip_subset by blast
  from collapse_spaces_chars[OF this] show False by (simp add: is_space_def)
qed

lemma form_has_page:
  "contains_str ''page '' (pre @ n @ '' result(s) found'' @ mid @ ''page '' @ rest)"
proof -
  let ?a = "pre @ n @ '' result(s) found'' @ mid"
  have "prefix ''page '' (drop (length ?a) (?a @ ''page '' @ rest))"
    by (simp only: append_eq_conv_conj drop_append drop_all order_refl diff_self_eq_0 drop_0 append_Nil)
       simp
  then have "contains_str ''page '' (?a @ ''page '' @ rest)" by (rule contains_str_drop)
  then show ?thesis by simp
qed

lemma re_search_pattern_None:
  "(re_search_pattern (normalise t) = None) =
   (\<not> (\<exists>pre n mid p tot post.
         normalise t = pre @ n @ '' result(s) found'' @ mid @ ''page '' @ p @ '' of '' @ tot @ post
         \<and> digits n \<and> digits p \<and> digits tot))"
proof
  assume none: "re_search_pattern (normalise t) = None"
  show "\<not> (\<exists>pre n mid p tot post.
         normalise t = pre @ n @ '' result(s) found'' @ mid @ ''page '' @ p @ '' of '' @ tot @ post
         \<and> digits n \<and> digits p \<and> digits tot)"
  proof
    assume "\<exists>pre n mid p tot post.
         normalise t = pre @ n @ '' result(s) found'' @ mid @ ''page '' @ p @ '' of '' @ tot @ post
         \<and> digits n \<and> digits p \<and> digits tot"
    then obtain pre n mid p tot post where
      eq: "normalise t = pre @ n @ '' result(s) found'' @ mid @ ''page '' @ p @ '' of '' @ tot @ post"
      and d: "digits n" "digits p" "digits tot" by blast
    have "CHR 0x0A \<notin> set (pre @ n @ '' result(s) found'' @ mid @ ''page '' @ p @ '' of '' @ tot @ post)"
      using normalise_no_newline[of t] unfolding eq .
    then have nl: "CHR 0x0A \<notin> set mid" by simp
    from re_search_pattern_complete[OF d nl, of pre post] none show False
      unfolding eq by simp
  qed
next
  assume no: "\<not> (\<exists>pre n mid p tot post.
         normalise t = pre @ n @ '' result(s) found'' @ mid @ ''page '' @ p @ '' of '' @ tot @ post
         \<and> digits n \<and> digits p \<and> digits tot)"
  show "re_search_pattern (normalise t) = None"
  proof (cases "re_search_pattern (normalise t)")
    case None
    then show ?thesis .
  next
    case (Some r)
    obtain g1 g2 where r: "r = (g1, g2)" by (cases r)
    from re_search_pattern_sound[OF Some[unfolded r] normalise_no_newline] no show ?thesis by blast
  qed
qed

text \<open>
  C9 (as stated, refuted): with two spaces after the number, the text with
  its white space collapsed and its separators taken out has the form, but
  the resolver deletes the pair of spaces, finds no match and returns \<open>None\<close>.
\<close>

theorem get_num_pages_and_results_double_space_counterexample:
  "spec_prepare ''1,234  result(s) found ... page 1 of 42'' = ''1234 result(s) found ... page 1 of 42''
   \<and> normalise ''1,234  result(s) found ... page 1 of 42'' = ''1234result(s) found ... page 1 of 42''
   \<and> get_num_pages_and_results (Outcome ''1,234  result(s) found ... page 1 of 42'') = Inr None"
  by code_simp

text \<open>
  C9 (amended): the text of the summary region is prepared as the code does
  it (\<open>normalise\<close>: stripped, every pair of adjacent spaces deleted, the commas
  deleted, every run of white space made one space, stripped). When the
  prepared text is \<open>pre <N> result(s) found mid page <P> of <Total> post\<close>, where
  \<open>N\<close> is the first number directly followed by \<open> result(s) found\<close> and
  \<open>page <P> of <Total>\<close> the last such part, \<open>Total\<close> being the whole number
  (no number found starts in \<open>pre\<close>, \<open>post\<close> does not go on with a digit and no
  page part starts in \<open>post\<close>), the resolver returns the pair \<open>(Total, N)\<close>;
  and every pair it returns is the pair of such a reading. It returns \<open>None\<close>
  exactly when the prepared text has no part of the form
  \<open><N> result(s) found ... page <P> of <Total>\<close>, and also when the region is
  absent; when the enclosing \<open>tabs-1\<close> block is absent, it raises its own
  \<open>Failed to determine number of pages and results\<close> error. Neither is the
  error of a failed fetch.
\<close>

theorem get_num_pages_and_results_resolves:
  "(normalise t = pre @ n @ '' result(s) found'' @ mid @ ''page '' @ p @ '' of '' @ tot @ post
      \<and> digits n \<and> digits p \<and> digits tot
      \<and> list_all (\<lambda>i. \<not> number_found (drop i (normalise t))) [0..<length pre]
      \<and> takeWhile is_digit post = []
      \<and> list_all (\<lambda>j. \<not> page_part (drop j post)) [0..<length post] \<longrightarrow>
      get_num_pages_and_results (Outcome t) = Inr (Some (int_of_digits tot, int_of_digits n)))
   \<and> (get_num_pages_and_results (Outcome t) = Inr (Some (a, b)) \<longrightarrow>
        (\<exists>pre n mid p tot post.
            normalise t = pre @ n @ '' result(s) found'' @ mid @ ''page '' @ p @ '' of '' @ tot @ post
            \<and> digits n \<and> digits p \<and> digits tot
            \<and> list_all (\<lambda>i. \<not> number_found (drop i (normalise t))) [0..<length pre]
            \<and> takeWhile is_digit post = []
            \<and> list_all (\<lambda>j. \<not> page_part (drop j post)) [0..<length post]
            \<and> a = int_of_digits tot \<and> b = int_of_digits n))
   \<and> ((get_num_pages_and_results (Outcome t) = Inr None) =
        (\<not> (\<exists>pre n mid p tot post.
              normalise t = pre @ n @ '' result(s) found'' @ mid @ ''page '' @ p @ '' of '' @ tot @ post
              \<and> digits n \<and> digits p \<and> digits tot)))
   \<and> get_num_pages_and_results NoOutcome = Inr None
   \<and> get_num_pages_and_results NoTabs
        = Inl (Exception (''Failed to determine number of pages and results: '' @ none_has_no_find))"
proof (intro conjI impI)
  assume h: "normalise t = pre @ n @ '' result(s) found'' @ mid @ ''page '' @ p @ '' of '' @ tot @ post
      \<and> digits n \<and> digits p \<and> digits tot
      \<and> list_all (\<lambda>i. \<not> number_found (drop i (normalise t))) [0..<length pre]
      \<and> takeWhile is_digit post = []
      \<and> list_all (\<lambda>j. \<not> page_part (drop j post)) [0..<length post]"
  then have eq: "normalise t = pre @ n @ '' result(s) found'' @ mid @ ''page '' @ p @ '' of '' @ tot @ post"
    by (rule conjunct1)
  have "CHR 0x0A \<notin> set (pre @ n @ '' result(s) found'' @ mid @ ''page '' @ p @ '' of '' @ tot @ post)"
    using normalise_no_newline[of t] unfolding eq .
  then have nl: "CHR 0x0A \<notin> set mid" by simp
  from h have first: "list_all (\<lambda>i. \<not> number_found
            (drop i (pre @ n @ '' result(s) found'' @ mid @ ''page '' @ p @ '' of '' @ tot @ post)))
          [0..<length pre]"
    unfolding eq by (simp only: simp_thms)
  from h have d: "digits n" "digits p" "digits tot" "takeWhile is_digit post = []"
      "list_all (\<lambda>j. \<not> page_part (drop j post)) [0..<length post]"
    by (simp_all only: simp_thms)
  have "re_search_pattern (normalise t) = Some (n, tot)"
    unfolding eq using d nl first by (rule re_search_pattern_at)
  then show "get_num_pages_and_results (Outcome t) = Inr (Some (int_of_digits tot, int_of_digits n))"
    by (simp add: get_num_pages_and_results_def)
next
  assume "get_num_pages_and_results (Outcome t) = Inr (Some (a, b))"
  then obtain g1 g2 where s: "re_search_pattern (normalise t) = Some (g1, g2)"
    and ab: "a = int_of_digits g2" "b = int_of_digits g1"
    by (auto simp: get_num_pages_and_results_def split: option.splits prod.splits)
  from re_search_pattern_sound[OF s normalise_no_newline] ab
  show "\<exists>pre n mid p tot post.
            normalise t = pre @ n @ '' result(s) found'' @ mid @ ''page '' @ p @ '' of '' @ tot @ post
            \<and> digits n \<and> digits p \<and> digits tot
            \<and> list_all (\<lambda>i. \<not> number_found (drop i (normalise t))) [0..<length pre]
            \<and> takeWhile is_digit post = []
            \<and> list_all (\<lambda>j. \<not> page_part (drop j post)) [0..<length post]
            \<and> a = int_of_digits tot \<and> b = int_of_digits n"
    by blast
next
  have "(get_num_pages_and_results (Outcome t) = Inr None) = (re_search_pattern (normalise t) = None)"
    by (simp add: get_num_pages_and_results_def split: option.splits prod.splits)
  then show "(get_num_pages_and_results (Outcome t) = Inr None) =
        (\<not> (\<exists>pre n mid p tot post.
              normalise t = pre @ n @ '' result(s) found'' @ mid @ ''page '' @ p @ '' of '' @ tot @ post
              \<and> digits n \<and> digits p \<and> digits tot))"
    by (simp only: re_search_pattern_None)
next
  show "get_num_pages_and_results NoOutcome = Inr None"
    by (simp add: get_num_pages_and_results_def)
  show "get_num_pages_and_results NoTabs
        = Inl (Exception (''Failed to determine number of pages and results: '' @ none_has_no_find))"
    by (simp add: get_num_pages_and_results_def)
qed

text \<open>
  C9, witness: the example of the specification; a text with an earlier
  number, which is not followed by \<open> result(s) found\<close>, and the reading that
  its answer comes from; and a text that has \<open>result(s) found\<close> but no page
  part.
\<close>

theorem get_num_pages_and_results_resolves_witness:
  "normalise ''1,234 result(s) found ... page 1 of 42'' = ''1234 result(s) found ... page 1 of 42''
   \<and> get_num_pages_and_results (Outcome ''1,234 result(s) found ... page 1 of 42'')
       = Inr (Some (42, 1234))
   \<and> get_num_pages_and_results (Outcome ''Query 2020: 5 result(s) found. page 1 of 3'')
       = Inr (Some (3, 5))
   \<and> (\<exists>pre n mid p tot post.
        normalise ''Query 2020: 5 result(s) found. page 1 of 3''
          = pre @ n @ '' result(s) found'' @ mid @ ''page '' @ p @ '' of '' @ tot @ post
        \<and> digits n \<and> digits p \<and> digits tot
        \<and> list_all (\<lambda>i. \<not> number_found
              (drop i (normalise ''Query 2020: 5 result(s) found. page 1 of 3''))) [0..<length pre]
        \<and> takeWhile is_digit post = []
        \<and> list_all (\<lambda>j. \<not> page_part (drop j post)) [0..<length post]
        \<and> 3 = int_of_digits tot \<and> 5 = int_of_digits n)
   \<and> get_num_pages_and_results (Outcome ''5 result(s) found.'') = Inr None"
proof -
  have nt: "normalise ''1,234 result(s) found ... page 1 of 42''
            = [] @ ''1234'' @ '' result(s) found'' @ '' ... '' @ ''page '' @ ''1'' @ '' of '' @ ''42'' @ []"
    by code_simp
  have nq: "normalise ''Query 2020: 5 result(s) found. page 1 of 3''
            = ''Query 2020: '' @ ''5'' @ '' result(s) found'' @ ''. '' @ ''page '' @ ''1'' @ '' of '' @ ''3'' @ []"
    by code_simp
  have d: "digits ''1234''" "digits ''1''" "digits ''42''" "digits ''5''" "digits ''3''"
    by (simp_all add: digits_def is_digit_def)
  have pre: "list_all (\<lambda>i. \<not> number_found (drop i (normalise ''1,234 result(s) found ... page 1 of 42'')))
               [0..<length ([] :: string)]"
    by simp
  have preq: "list_all (\<lambda>i. \<not> number_found
                 (drop i (normalise ''Query 2020: 5 result(s) found. page 1 of 3'')))
               [0..<length ''Query 2020: '']"
    by code_simp
  have post: "takeWhile is_digit [] = []"
    "list_all (\<lambda>j. \<not> page_part (drop j [])) [0..<length ([] :: string)]" by simp_all
  have v: "int_of_digits ''42'' = 42" "int_of_digits ''1234'' = 1234"
    "int_of_digits ''3'' = 3" "int_of_digits ''5'' = 5"
    by (simp_all add: int_of_digits_def digit_value_def)
  have absent: "\<not> contains_str ''page '' (normalise ''5 result(s) found.'')"
    by code_simp
  have noform: "\<not> (\<exists>pre n mid p tot post.
      normalise ''5 result(s) found.'' = pre @ n @ '' result(s) found'' @ mid @ ''page '' @ p @ '' of '' @ tot @ post
      \<and> digits n \<and> digits p \<and> digits tot)"
  proof
    assume "\<exists>pre n mid p tot post.
      normalise ''5 result(s) found.'' = pre @ n @ '' result(s) found'' @ mid @ ''page '' @ p @ '' of '' @ tot @ post
      \<and> digits n \<and> digits p \<and> digits tot"
    then obtain pre n mid p tot post where
      eq: "normalise ''5 result(s) found.''
           = pre @ n @ '' result(s) found'' @ mid @ ''page '' @ p @ '' of '' @ tot @ post"
      by blast
    have "contains_str ''page '' (normalise ''5 result(s) found.'')"
      unfolding eq by (rule form_has_page)
    with absent show False by simp
  qed
  have r1: "get_num_pages_and_results (Outcome ''1,234 result(s) found ... page 1 of 42'')
       = Inr (Some (42, 1234))"
    using get_num_pages_and_results_resolves[where t = "''1,234 result(s) found ... page 1 of 42''"
        and pre = "[]" and n = "''1234''" and mid = "'' ... ''" and p = "''1''" and tot = "''42''"
        and post = "[]"] nt d pre post v
    by (simp only: simp_thms)
  have r2: "get_num_pages_and_results (Outcome ''Query 2020: 5 result(s) found. page 1 of 3'')
       = Inr (Some (3, 5))"
    using get_num_pages_and_results_resolves[where t = "''Query 2020: 5 result(s) found. page 1 of 3''"
        and pre = "''Query 2020: ''" and n = "''5''" and mid = "''. ''" and p = "''1''" and tot = "''3''"
        and post = "[]"] nq d preq post v
    by (simp only: simp_thms)
  have r2': "\<exists>pre n mid p tot post.
        normalise ''Query 2020: 5 result(s) found. page 1 of 3''
          = pre @ n @ '' result(s) found'' @ mid @ ''page '' @ p @ '' of '' @ tot @ post
        \<and> digits n \<and> digits p \<and> digits tot
        \<and> list_all (\<lambda>i. \<not> number_found
              (drop i (normalise ''Query 2020: 5 result(s) found. page 1 of 3''))) [0..<length pre]
        \<and> takeWhile is_digit post = []
        \<and> list_all (\<lambda>j. \<not> page_part (drop j post)) [0..<length post]
        \<and> 3 = int_of_digits tot \<and> 5 = int_of_digits n"
    using get_num_pages_and_results_resolves[where t = "''Query 2020: 5 result(s) found. page 1 of 3''"
        and a = 3 and b = 5] r2
    by (simp only: simp_thms)
  have r3: "get_num_pages_and_results (Outcome ''5 result(s) found.'') = Inr None"
    using get_num_pages_and_results_resolves[where t = "''5 result(s) found.''"] noform
    by (simp only: simp_thms)
  have n2: "normalise ''1,234 result(s) found ... page 1 of 42'' = ''1234 result(s) found ... page 1 of 42''"
    by code_simp
  from n2 r1 r2 r2' r3 show ?thesis by (simp only: simp_thms)
qed

end
